theory Spec2Isabelle
  imports Main "HOL-Library.AList"
begin

section \<open>Time\<close>

text \<open>
  The program reads the clock with \<open>datetime.now(UTC)\<close> and compares differences of
  readings with \<open>timedelta\<close> values. Both have microsecond resolution, so a clock reading is
  modelled as an integer number of microseconds and a \<open>timedelta\<close> as an integer too.
\<close>

type_synonym time = int

definition seconds :: "int \<Rightarrow> int" where
  "seconds n = n * 1000000"

definition minutes :: "int \<Rightarrow> int" where
  "minutes n = seconds (n * 60)"

section \<open>RateLimiter\<close>

text \<open>
  \<open>RateLimiter.__init__\<close> is only ever called without arguments, so \<open>max_requests\<close> and
  \<open>time_frame_seconds\<close> are the defaults 15 and 60. The state of the limiter is the list
  \<open>self.requests\<close>; the lock is not modelled.
\<close>

definition max_requests :: nat where
  "max_requests = 15"

definition time_frame_seconds :: int where
  "time_frame_seconds = 60"

text \<open>
  \<open>request_made\<close>: append the current reading; when the list is longer than
  \<open>max_requests + 25\<close>, \<open>pop(0)\<close> removes its first element.
\<close>

definition request_made :: "time \<Rightarrow> time list \<Rightarrow> time list" where
  "request_made now reqs =
     (let reqs' = reqs @ [now]
      in if length reqs' > max_requests + 25 then tl reqs' else reqs')"

text \<open>
  \<open>is_rate_limit_exceeded\<close>: count the entries strictly newer than
  \<open>now - timedelta(seconds=60)\<close>; the stored list itself is left as it is.
\<close>

definition is_rate_limit_exceeded :: "time \<Rightarrow> time list \<Rightarrow> bool" where
  "is_rate_limit_exceeded now reqs =
     (let cutoff_time = now - seconds time_frame_seconds;
          recent_requests = filter (\<lambda>req. req > cutoff_time) reqs
      in length recent_requests \<ge> max_requests)"

text \<open>
  A sequence of calls of \<open>request_made\<close>, at the clock readings \<open>ts\<close> in this order.
\<close>

definition record_all :: "time list \<Rightarrow> time list \<Rightarrow> time list" where
  "record_all reqs ts = foldl (\<lambda>rs t. request_made t rs) reqs ts"

text \<open>
  \<open>wait_if_needed\<close>: poll every 0.25 s until the limit is no longer exceeded. The model
  advances the clock by exactly the time slept and returns the reading at which the loop ends.
\<close>

function wait_if_needed :: "time \<Rightarrow> time list \<Rightarrow> time" where
  "wait_if_needed now reqs =
     (if is_rate_limit_exceeded now reqs then wait_if_needed (now + 250000) reqs else now)"
  by pat_completeness auto

termination wait_if_needed
proof (relation "measure (\<lambda>(now, reqs). nat (Max (set reqs) + seconds time_frame_seconds - now))")
  show "wf (measure (\<lambda>(now, reqs). nat (Max (set reqs) + seconds time_frame_seconds - now)))"
    by simp
next
  fix now :: time and reqs :: "time list"
  assume "is_rate_limit_exceeded now reqs"
  then have "filter (\<lambda>req. req > now - seconds time_frame_seconds) reqs \<noteq> []"
    by (auto simp: is_rate_limit_exceeded_def max_requests_def)
  then obtain r where r: "r \<in> set reqs" "now - seconds time_frame_seconds < r"
    by (auto simp: filter_empty_conv)
  have "r \<le> Max (set reqs)" using r(1) by simp
  then have "now - seconds time_frame_seconds < Max (set reqs)" using r(2) by linarith
  then show "((now + 250000, reqs), (now, reqs))
      \<in> measure (\<lambda>(now, reqs). nat (Max (set reqs) + seconds time_frame_seconds - now))"
    by simp
qed

declare wait_if_needed.simps [simp del]

section \<open>Text files\<close>

text \<open>
  \<open>404.txt\<close> and the input file are read in text mode, line by line. A file is absent,
  or present but failing to open or decode (the \<open>except Exception\<close> branches), or it
  yields its text: the decoded characters, line ends already translated to the newline
  character, as Python's text layer hands them over. Iterating a file gives its lines, each
  with its terminating newline, the last one possibly without.
\<close>

datatype text_file = Missing | Unreadable | Text string

definition newline :: string where
  "newline = [CHR 0x0A]"

fun file_lines :: "string \<Rightarrow> string list" where
  "file_lines [] = []"
| "file_lines (c # cs) =
     (if c = CHR 0x0A then [c] # file_lines cs
      else (case file_lines cs of [] \<Rightarrow> [[c]] | l # ls \<Rightarrow> (c # l) # ls))"

text \<open>
  \<open>str.strip()\<close> removes the leading and trailing white space. A \<open>char\<close> stands for
  a code point below 256, and these are the ones for which \<open>str.isspace\<close> holds.
\<close>

definition is_space :: "char \<Rightarrow> bool" where
  "is_space c = (of_char c \<in> {9, 10, 11, 12, 13, 28, 29, 30, 31, 32, 133, 160 :: nat})"

definition strip :: "string \<Rightarrow> string" where
  "strip s = rev (dropWhile is_space (rev (dropWhile is_space s)))"

text \<open>
  The comprehension \<open>line.strip() for line in f if line.strip()\<close>, which reads both the
  ledger and the input file.
\<close>

definition stripped_lines :: "string \<Rightarrow> string list" where
  "stripped_lines s = map strip (filter (\<lambda>line. strip line \<noteq> []) (file_lines s))"

text \<open>
  \<open>_load_404_ids\<close> (the leading underscore of the private methods is dropped throughout):
  the empty set when the file is absent or unreadable, the set of the stripped non-blank lines
  otherwise.
\<close>

definition load_404_ids :: "text_file \<Rightarrow> string set" where
  "load_404_ids f =
     (case f of
        Missing \<Rightarrow> {}
      | Unreadable \<Rightarrow> {}
      | Text s \<Rightarrow> set (stripped_lines s))"

section \<open>JSON values\<close>

text \<open>
  The decoded body of a response or of a snapshot file. Numbers are integers here. A
  dictionary is an association list with distinct keys; \<open>data.get(key, default)\<close> is
  \<open>dict_get\<close>, and \<open>truthy\<close> is Python's truth value of the result.
\<close>

datatype json = JNull | JBool bool | JNum int | JStr string | JArr "json list"
  | JObj "(string \<times> json) list"

type_synonym json_dict = "(string \<times> json) list"

fun truthy :: "json \<Rightarrow> bool" where
  "truthy JNull = False"
| "truthy (JBool b) = b"
| "truthy (JNum n) = (n \<noteq> 0)"
| "truthy (JStr s) = (s \<noteq> [])"
| "truthy (JArr xs) = (xs \<noteq> [])"
| "truthy (JObj kvs) = (kvs \<noteq> [])"

definition dict_get :: "json_dict \<Rightarrow> string \<Rightarrow> json \<Rightarrow> json" where
  "dict_get d k dflt = (case map_of d k of Some v \<Rightarrow> v | None \<Rightarrow> dflt)"

definition is_yoinker :: "json_dict \<Rightarrow> bool" where
  "is_yoinker data = truthy (dict_get data ''isYoinker'' (JBool False))"

section \<open>The in-memory cache\<close>

text \<open>
  \<open>self.cache\<close> is a Python dict from user id to \<open>(cached_time, result)\<close>, where the result
  is a dictionary or \<open>None\<close>. It is an association list in insertion order:
  \<open>AList.update\<close> overwrites in place or appends, \<open>AList.delete\<close> is \<open>del\<close>, \<open>length\<close> is
  \<open>len\<close>, \<open>[]\<close> is the table after \<open>clear()\<close>.
\<close>

type_synonym cache_table = "(string \<times> (time \<times> json_dict option)) list"

text \<open>
  \<open>_check_cache\<close> returns the result and the table it leaves behind. An entry younger than
  30 minutes is returned as it is stored. Otherwise an expired entry is deleted, the table is
  cleared when it holds more than 512 entries, and the result is \<open>None\<close>.
\<close>

definition check_cache :: "time \<Rightarrow> string \<Rightarrow> cache_table \<Rightarrow> json_dict option \<times> cache_table" where
  "check_cache now user_id tbl =
     (case map_of tbl user_id of
        Some (cached_time, result) \<Rightarrow>
          if now - cached_time < minutes 30 then (result, tbl)
          else (let tbl' = AList.delete user_id tbl
                in (None, if length tbl' > 512 then [] else tbl'))
      | None \<Rightarrow> (None, if length tbl > 512 then [] else tbl))"

definition add_to_cache :: "time \<Rightarrow> string \<Rightarrow> json_dict option \<Rightarrow> cache_table \<Rightarrow> cache_table" where
  "add_to_cache now user_id result tbl = AList.update user_id (now, result) tbl"

section \<open>The state of one detector\<close>

text \<open>
  A snapshot file \<open>yoinkers/<user_id>.json\<close> either decodes to a dictionary or makes
  \<open>json.load\<close> (or the \<open>get\<close> on its result) raise, which the code catches.
\<close>

datatype snapshot = SnapDict json_dict | SnapBroken

text \<open>
  The world a lookup runs in: the clock, the limiter's request list, the cache, the ledger
  file \<open>404.txt\<close> with a flag telling whether it can be opened for appending, the snapshot
  files, and the log of the GET requests issued so far (time and user id), which the
  program does not keep and the properties below speak about.
\<close>

record world =
  clock :: time
  requests :: "time list"
  cache :: cache_table
  ledger :: text_file
  ledger_writable :: bool
  snapshots :: "string \<rightharpoonup> snapshot"
  net_log :: "(time \<times> string) list"

definition sleep :: "int \<Rightarrow> world \<Rightarrow> world" where
  "sleep d w = w\<lparr>clock := clock w + d\<rparr>"

text \<open>
  \<open>_save_to_404_file\<close>: append the line \<open>user_id\<close> and a newline; a failure to open or
  write is printed and otherwise ignored. Opening for append creates a missing file; a file
  that cannot be read stays so.
\<close>

definition append_line :: "string \<Rightarrow> text_file \<Rightarrow> text_file" where
  "append_line user_id f =
     (case f of
        Missing \<Rightarrow> Text (user_id @ newline)
      | Unreadable \<Rightarrow> Unreadable
      | Text s \<Rightarrow> Text (s @ user_id @ newline))"

definition save_to_404_file :: "string \<Rightarrow> world \<Rightarrow> world" where
  "save_to_404_file user_id w =
     (if ledger_writable w then w\<lparr>ledger := append_line user_id (ledger w)\<rparr> else w)"

section \<open>check_user\<close>

text \<open>
  The server is a script: the list of the answers it gives to the successive GET requests
  of one lookup. An answer is a timeout or a connection error raised by \<open>session.get\<close>,
  or a status with a body. The body is read only for status 200, and
  \<open>response.json()\<close> then does one of five things: it gives a dictionary; it gives a
  value that is no dictionary (\<open>None\<close> for an empty body, a list, a number), on which
  \<open>data.get\<close> raises \<open>AttributeError\<close>; it raises \<open>JSONDecodeError\<close>; it raises
  \<open>asyncio.TimeoutError\<close>; or it raises an \<open>aiohttp.ClientError\<close>, which is also what
  aiohttp does (\<open>ContentTypeError\<close>) with a body that is not served as JSON.
\<close>

datatype body = BodyJson json_dict | BodyNotDict | BodyDecodeError
  | BodyTimeoutError | BodyClientError

datatype response = TimeoutError | ClientError | Response nat body

text \<open>
  A call of \<open>check_user\<close> returns a result, or an exception that none of its handlers
  catches leaves it, or it is still waiting for an answer when the script ends.
\<close>

datatype py_exception = AttributeError

datatype outcome = Returned "json_dict option" | Raised py_exception | Unanswered

text \<open>
  The first half of \<open>check_user\<close>, up to the GET: the snapshot file, then the cache, then
  the rate gate. \<open>Inl\<close> is an early return with its result, \<open>Inr\<close> the world in which the
  request has just been issued.
\<close>

definition before_request :: "string \<Rightarrow> world \<Rightarrow> (json_dict option \<times> world) + world" where
  "before_request user_id w =
     (case (case snapshots w user_id of
              Some (SnapDict data) \<Rightarrow>
                if is_yoinker data then Some (Some data, w)
                else Some (None, if user_id \<notin> load_404_ids (ledger w)
                                 then save_to_404_file user_id w else w)
            | Some SnapBroken \<Rightarrow> None
            | None \<Rightarrow> None) of
        Some early \<Rightarrow> Inl early
      | None \<Rightarrow>
          (case check_cache (clock w) user_id (cache w) of
             (cached_result, tbl) \<Rightarrow>
               if cached_result \<noteq> None then Inl (cached_result, w\<lparr>cache := tbl\<rparr>)
               else
                 (let w1 = w\<lparr>cache := tbl\<rparr>;
                      w2 = w1\<lparr>clock := wait_if_needed (clock w1) (requests w1)\<rparr>
                  in Inr (w2\<lparr>net_log := net_log w2 @ [(clock w2, user_id)]\<rparr>))))"

text \<open>
  The second half: what \<open>check_user\<close> does with the answer. \<open>Inl\<close> is the end of the
  call, by a return or by an uncaught exception, \<open>Inr\<close> the retry count and the world of
  the recursive call. \<open>request_made\<close> runs once the response
  has arrived, so not when \<open>session.get\<close> itself times out or fails. The two \<open>except\<close>
  clauses of the outer \<open>try\<close> also catch a failure while the body is read.
\<close>

definition on_response ::
  "response \<Rightarrow> string \<Rightarrow> nat \<Rightarrow> world \<Rightarrow> (outcome \<times> world) + (nat \<times> world)" where
  "on_response resp user_id retry_count w =
     (case resp of
        Response status b \<Rightarrow>
          (let w1 = w\<lparr>requests := request_made (clock w) (requests w)\<rparr>
           in if status = 200 then
                (case b of
                   BodyJson data \<Rightarrow>
                     if is_yoinker data
                     then Inl (Returned (Some data),
                               w1\<lparr>cache := add_to_cache (clock w1) user_id (Some data) (cache w1)\<rparr>)
                     else Inl (Returned None,
                               w1\<lparr>cache := add_to_cache (clock w1) user_id None (cache w1)\<rparr>)
                 | BodyNotDict \<Rightarrow> Inl (Raised AttributeError, w1)
                 | BodyDecodeError \<Rightarrow> Inl (Returned None, w1)
                 | BodyTimeoutError \<Rightarrow>
                     if retry_count < 3 then Inr (retry_count + 1, sleep (seconds 1) w1)
                     else Inl (Returned None, w1)
                 | BodyClientError \<Rightarrow>
                     if retry_count < 3 then Inr (retry_count + 1, sleep (seconds 1) w1)
                     else Inl (Returned None, w1))
              else if status = 404 then
                Inl (Returned None, save_to_404_file user_id
                             (w1\<lparr>cache := add_to_cache (clock w1) user_id None (cache w1)\<rparr>))
              else if status = 429 then Inr (retry_count, sleep (seconds 60) w1)
              else Inr (retry_count, sleep (seconds 1) w1))
      | TimeoutError \<Rightarrow>
          if retry_count < 3 then Inr (retry_count + 1, sleep (seconds 1) w)
          else Inl (Returned None, w)
      | ClientError \<Rightarrow>
          if retry_count < 3 then Inr (retry_count + 1, sleep (seconds 1) w)
          else Inl (Returned None, w))"

text \<open>
  \<open>check_user\<close> itself. Every recursive call re-enters the function from the top and
  consumes one answer of the script, so the recursion is on the script.
\<close>

fun check_user ::
  "response list \<Rightarrow> string \<Rightarrow> nat \<Rightarrow> world \<Rightarrow> outcome \<times> world" where
  "check_user script user_id retry_count w =
     (case before_request user_id w of
        Inl (r, w') \<Rightarrow> (Returned r, w')
      | Inr w1 \<Rightarrow>
          (case script of
             [] \<Rightarrow> (Unanswered, w1)
           | resp # rest \<Rightarrow>
               (case on_response resp user_id retry_count w1 of
                  Inl (out, w') \<Rightarrow> (out, w')
                | Inr (retry_count', w2) \<Rightarrow> check_user rest user_id retry_count' w2)))"

declare check_user.simps [simp del]

section \<open>process_user_ids\<close>

text \<open>
  \<open>range(start, stop, step)\<close> raises \<open>ValueError\<close> for a zero step and is empty when the
  step points away from \<open>stop\<close>.
\<close>

function range_up :: "int \<Rightarrow> int \<Rightarrow> int \<Rightarrow> int list" where
  "range_up i stop step =
     (if 0 < step \<and> i < stop then i # range_up (i + step) stop step else [])"
  by pat_completeness auto
termination
  by (relation "measure (\<lambda>(i, stop, step). nat (stop - i))") auto

function range_down :: "int \<Rightarrow> int \<Rightarrow> int \<Rightarrow> int list" where
  "range_down i stop step =
     (if step < 0 \<and> stop < i then i # range_down (i + step) stop step else [])"
  by pat_completeness auto
termination
  by (relation "measure (\<lambda>(i, stop, step). nat (i - stop))") auto

declare range_up.simps [simp del] range_down.simps [simp del]

definition py_range :: "int \<Rightarrow> int \<Rightarrow> int \<Rightarrow> int list option" where
  "py_range start stop step =
     (if step = 0 then None
      else if 0 < step then Some (range_up start stop step)
      else Some (range_down start stop step))"

text \<open>
  The slice \<open>xs[i:j]\<close>: a negative bound counts from the end, and both bounds are clipped
  to the list.
\<close>

definition slice_bound :: "int \<Rightarrow> int \<Rightarrow> int" where
  "slice_bound k n = (if k < 0 then max 0 (k + n) else min k n)"

definition py_slice :: "'a list \<Rightarrow> int \<Rightarrow> int \<Rightarrow> 'a list" where
  "py_slice xs i j =
     (let n = int (length xs); a = slice_bound i n; b = slice_bound j n
      in take (nat (b - a)) (drop (nat a) xs))"

text \<open>
  What the orchestrator does with the lookups is recorded as a list of events:
  \<open>TaskCreated n u\<close> for the \<open>asyncio.create_task(self.check_user(session, u, ...))\<close> in
  batch number \<open>n\<close> (the number the program prints, \<open>i // batch_size + 1\<close>), and
  \<open>TaskAwaited n u\<close> when the \<open>await asyncio.wait_for(task, timeout=5)\<close> of that task is
  over, with a result, a timeout or an exception.
\<close>

datatype event = TaskCreated int string | TaskAwaited int string

definition batch_events :: "int \<Rightarrow> string list \<Rightarrow> event list" where
  "batch_events n batch = map (TaskCreated n) batch @ map (TaskAwaited n) batch"

text \<open>
  A run ends early with a message, or in the \<open>ValueError\<close> of \<open>range\<close>, or it goes through
  all batches.
\<close>

datatype run = InputNotFound | InputReadError | NoUserIds | AllSkipped
  | RangeValueError | Completed "event list"

text \<open>
  The first part of \<open>process_user_ids\<close>: read the input file, keep the stripped non-blank
  lines, load the ledger and drop the identifiers it holds. \<open>Inl\<close> is an early end of the
  run, \<open>Inr\<close> the list \<open>user_ids\<close> that goes into the batches.
\<close>

definition select_user_ids :: "text_file \<Rightarrow> text_file \<Rightarrow> run + string list" where
  "select_user_ids input_file ledger_file =
     (case input_file of
        Missing \<Rightarrow> Inl InputNotFound
      | Unreadable \<Rightarrow> Inl InputReadError
      | Text s \<Rightarrow>
          (let user_ids = stripped_lines s
           in if user_ids = [] then Inl NoUserIds
              else
                (let not_found_ids = load_404_ids ledger_file;
                     user_ids' = filter (\<lambda>uid. uid \<notin> not_found_ids) user_ids
                 in if user_ids' = [] then Inl AllSkipped else Inr user_ids')))"

text \<open>
  The second part: the loop over \<open>range(0, len(user_ids), batch_size)\<close> with
  \<open>batch_size = self.max_concurrent * 2\<close>; each round creates the tasks of its batch and
  then awaits them one by one. What the loop does with each result (the snapshot file, the
  report row, the counters) has no influence on which tasks are created and awaited, and is
  left out. The tasks of a batch run interleaved; a single lookup is modelled by
  \<open>check_user\<close> above, for any state it may start in.
\<close>

definition process_user_ids :: "text_file \<Rightarrow> text_file \<Rightarrow> int \<Rightarrow> run" where
  "process_user_ids input_file ledger_file max_concurrent =
     (case select_user_ids input_file ledger_file of
        Inl early \<Rightarrow> early
      | Inr user_ids \<Rightarrow>
          (let batch_size = max_concurrent * 2
           in case py_range 0 (int (length user_ids)) batch_size of
                None \<Rightarrow> RangeValueError
              | Some starts \<Rightarrow>
                  Completed (concat (map (\<lambda>i. batch_events (i div batch_size + 1)
                                                 (py_slice user_ids i (i + batch_size)))
                                         starts))))"

fun run_events :: "run \<Rightarrow> event list" where
  "run_events (Completed evs) = evs"
| "run_events _ = []"

section \<open>Derived notions used in the statements\<close>

text \<open>
  A detector right after \<open>__init__\<close>, at clock reading 0, with no ledger and no snapshot
  files on disk.
\<close>

definition init_world :: world where
  "init_world = \<lparr>clock = 0, requests = [], cache = [], ledger = Missing,
     ledger_writable = True, snapshots = Map.empty, net_log = []\<rparr>"

text \<open>
  The lookup gets as far as the network when no snapshot file decodes and the cache read
  gives \<open>None\<close>.
\<close>

definition no_shortcut :: "string \<Rightarrow> world \<Rightarrow> bool" where
  "no_shortcut user_id w =
     ((case snapshots w user_id of Some (SnapDict data) \<Rightarrow> False | _ \<Rightarrow> True) \<and>
      fst (check_cache (clock w) user_id (cache w)) = None)"

text \<open>The clock reading at which the rate gate lets the lookup through.\<close>

definition gate_time :: "world \<Rightarrow> time" where
  "gate_time w = wait_if_needed (clock w) (requests w)"

text \<open>The world in which the GET of a lookup that got as far as the network has been issued.\<close>

definition issued :: "string \<Rightarrow> world \<Rightarrow> world" where
  "issued user_id w =
     w\<lparr>cache := snd (check_cache (clock w) user_id (cache w)),
       clock := gate_time w,
       net_log := net_log w @ [(gate_time w, user_id)]\<rparr>"

text \<open>The number of GET requests one call of \<open>check_user\<close> issues.\<close>

definition attempts :: "response list \<Rightarrow> string \<Rightarrow> nat \<Rightarrow> world \<Rightarrow> nat" where
  "attempts script user_id retry_count w =
     length (net_log (snd (check_user script user_id retry_count w))) - length (net_log w)"

text \<open>
  The answers that end in one of the two \<open>except\<close> clauses: a timeout or a connection
  error, of \<open>session.get\<close> or while the body of a 200 response is read.
\<close>

fun transport_failure :: "response \<Rightarrow> bool" where
  "transport_failure TimeoutError = True"
| "transport_failure ClientError = True"
| "transport_failure (Response status b) =
     (status = 200 \<and> (b = BodyTimeoutError \<or> b = BodyClientError))"

text \<open>The world after \<open>request_made\<close>, which runs for every answer that has a status.\<close>

fun recorded :: "response \<Rightarrow> world \<Rightarrow> world" where
  "recorded (Response status b) w = w\<lparr>requests := request_made (clock w) (requests w)\<rparr>"
| "recorded _ w = w"

text \<open>The answers after which \<open>check_user\<close> calls itself with \<open>retry_count\<close> unchanged.\<close>

definition unbudgeted :: "response \<Rightarrow> bool" where
  "unbudgeted resp =
     (case resp of Response status b \<Rightarrow> status \<noteq> 200 \<and> status \<noteq> 404 | _ \<Rightarrow> False)"

fun event_batch :: "event \<Rightarrow> int" where
  "event_batch (TaskCreated n u) = n"
| "event_batch (TaskAwaited n u) = n"

fun event_user :: "event \<Rightarrow> string" where
  "event_user (TaskCreated n u) = u"
| "event_user (TaskAwaited n u) = u"

fun is_created :: "event \<Rightarrow> bool" where
  "is_created (TaskCreated n u) = True"
| "is_created (TaskAwaited n u) = False"

text \<open>The identifiers whose tasks batch \<open>n\<close> creates, and those it awaits, in order.\<close>

definition created_in :: "int \<Rightarrow> event list \<Rightarrow> string list" where
  "created_in n evs = map event_user (filter (\<lambda>e. is_created e \<and> event_batch e = n) evs)"

definition awaited_in :: "int \<Rightarrow> event list \<Rightarrow> string list" where
  "awaited_in n evs = map event_user (filter (\<lambda>e. \<not> is_created e \<and> event_batch e = n) evs)"

text \<open>
  The events of \<open>m\<close> batches of size \<open>b\<close> cut from \<open>ids\<close>; the loop of
  \<open>process_user_ids\<close> is shown below to produce exactly this list.
\<close>

definition plan :: "nat \<Rightarrow> string list \<Rightarrow> nat \<Rightarrow> event list" where
  "plan b ids m =
     concat (map (\<lambda>k. batch_events (int k + 1) (take b (drop (k * b) ids))) [0..<m])"

subsection \<open>Sample data\<close>

definition sample_input :: text_file where
  "sample_input =
     Text (''usr_A'' @ newline @ ''usr_B'' @ newline @ ''usr_C'' @ newline @ ''usr_D'' @ newline)"

definition sample_ledger :: text_file where
  "sample_ledger = Text (''usr_B'' @ newline)"

definition sample_record :: json_dict where
  "sample_record = [(''isYoinker'', JBool True), (''userName'', JStr ''Foo''),
     (''year'', JStr ''2024''), (''reason'', JStr ''spam'')]"

definition sample_id :: "nat \<Rightarrow> string" where
  "sample_id n = ''usr_'' @ replicate n (CHR ''x'')"

text \<open>The cache after storing \<open>sample_record\<close> for \<open>n\<close> distinct identifiers at time 0.\<close>

definition fill_cache :: "nat \<Rightarrow> cache_table" where
  "fill_cache n =
     foldl (\<lambda>tbl k. add_to_cache 0 (sample_id k) (Some sample_record) tbl) [] [0..<n]"

section \<open>Properties of the rate limiter\<close>

lemma wait_if_needed_not_exceeded:
  "\<not> is_rate_limit_exceeded (wait_if_needed now reqs) reqs"
proof (induction now reqs rule: wait_if_needed.induct)
  case (1 now reqs)
  then show ?case
    by (cases "is_rate_limit_exceeded now reqs") (simp_all add: wait_if_needed.simps[of now reqs])
qed

lemma wait_if_needed_later: "now \<le> wait_if_needed now reqs"
proof (induction now reqs rule: wait_if_needed.induct)
  case (1 now reqs)
  then show ?case
    by (cases "is_rate_limit_exceeded now reqs") (simp_all add: wait_if_needed.simps[of now reqs])
qed

lemma tl_drop1: "tl xs = drop 1 xs"
  by (simp add: drop_Suc)

lemma drop_append_short: "n \<le> length xs \<Longrightarrow> drop n xs @ ys = drop n (xs @ ys)"
  by simp

text \<open>One call keeps the list or drops its oldest entry, and never leaves fewer than 40.\<close>

lemma request_made_suffix:
  "\<exists>k. request_made t rs = drop k (rs @ [t]) \<and> k \<le> 1 \<and>
       min (length rs + 1) 40 \<le> length (request_made t rs)"
proof (cases "length (rs @ [t]) > max_requests + 25")
  case True
  have "tl (rs @ [t]) = drop 1 (rs @ [t])" by (rule tl_drop1)
  then have "request_made t rs = drop 1 (rs @ [t])"
    using True by (simp add: request_made_def Let_def)
  moreover have "min (length rs + 1) 40 \<le> length (request_made t rs)"
    using True by (simp add: request_made_def Let_def max_requests_def)
  ultimately show ?thesis by (intro exI[of _ 1]) simp
next
  case False
  then have "request_made t rs = drop 0 (rs @ [t])"
    by (simp add: request_made_def Let_def)
  moreover have "min (length rs + 1) 40 \<le> length (request_made t rs)"
    using False by (simp add: request_made_def Let_def max_requests_def)
  ultimately show ?thesis by (intro exI[of _ 0]) simp
qed

lemma record_all_suffix:
  "\<exists>k. record_all rs ts = drop k (rs @ ts) \<and>
       min (length rs + length ts) 40 \<le> length (record_all rs ts)"
proof (induction ts arbitrary: rs)
  case Nil
  show ?case by (auto simp: record_all_def intro: exI[of _ 0])
next
  case (Cons t ts)
  obtain j where j: "request_made t rs = drop j (rs @ [t])"
     "min (length rs + 1) 40 \<le> length (request_made t rs)" and j1: "j \<le> 1"
    using request_made_suffix by blast
  obtain k where k: "record_all (request_made t rs) ts = drop k (request_made t rs @ ts)"
     "min (length (request_made t rs) + length ts) 40
        \<le> length (record_all (request_made t rs) ts)"
    using Cons.IH by blast
  have jl: "j \<le> length (rs @ [t])" using j1 by simp
  have step: "record_all rs (t # ts) = record_all (request_made t rs) ts"
    by (simp add: record_all_def)
  also have "\<dots> = drop k (drop j (rs @ [t]) @ ts)" using k(1) j(1) by simp
  also have "drop j (rs @ [t]) @ ts = drop j (rs @ t # ts)"
    using drop_append_short[OF jl, of ts] by simp
  finally have "record_all rs (t # ts) = drop (k + j) (rs @ t # ts)"
    by (simp only: drop_drop)
  moreover have "min (length rs + length (t # ts)) 40 \<le> length (record_all rs (t # ts))"
    using k(2) j(2) step by auto
  ultimately show ?case by blast
qed

text \<open>Fifteen calls in a row are all still in the list afterwards.\<close>

lemma record_all_15:
  assumes "length ts = 15"
  shows "\<exists>k. record_all rs ts = drop k rs @ ts"
proof -
  obtain k where k: "record_all rs ts = drop k (rs @ ts)"
     "min (length rs + length ts) 40 \<le> length (record_all rs ts)"
    using record_all_suffix by blast
  have "k \<le> length rs" using k assms by (cases "k \<le> length rs") auto
  then show ?thesis using k(1) by auto
qed

text \<open>
  C4, as the spec words it, fails where the oldest of the 15 timestamps is exactly 60 seconds
  old: it is then not yet more than 60 seconds in the past, but \<open>req > cutoff_time\<close> no
  longer counts it. Fifteen calls at the seconds 0 to 14, and a reading at second 60:
\<close>

theorem rate_limit_boundary_counterexample:
  "\<not> (seconds 60 < seconds 60 - Min (set (map seconds [0, 1, 2, 3, 4, 5, 6, 7, 8, 9, 10, 11, 12, 13, 14])))
   \<and> \<not> is_rate_limit_exceeded (seconds 60)
         (record_all [] (map seconds [0, 1, 2, 3, 4, 5, 6, 7, 8, 9, 10, 11, 12, 13, 14]))"
  by (simp add: record_all_def request_made_def seconds_def max_requests_def
      is_rate_limit_exceeded_def time_frame_seconds_def)

text \<open>
  C4 (amended). After any earlier calls \<open>rs\<close>, let \<open>request_made\<close> be called 15 times, at
  the readings \<open>ts\<close>. Whenever each of the 15 is less than 60 seconds old,
  \<open>is_rate_limit_exceeded\<close> returns true. When moreover every earlier entry has left the
  window, it returns true exactly as long as the oldest of the 15 is less than 60 seconds
  old, and false from the moment that one is 60 seconds old or older.
\<close>

theorem rate_limit_window:
  assumes "length ts = 15"
  shows "((\<forall>t\<in>set ts. now - t < seconds 60) \<longrightarrow>
            is_rate_limit_exceeded now (record_all rs ts)) \<and>
         ((\<forall>r\<in>set rs. seconds 60 \<le> now - r) \<longrightarrow>
            is_rate_limit_exceeded now (record_all rs ts) = (now - Min (set ts) < seconds 60))"
proof -
  obtain k where k: "record_all rs ts = drop k rs @ ts"
    using record_all_15[OF assms] by blast
  have ne: "ts \<noteq> []" using assms by auto
  have minall: "(now - Min (set ts) < seconds 60) = (\<forall>t\<in>set ts. now - t < seconds 60)"
  proof
    assume a: "now - Min (set ts) < seconds 60"
    show "\<forall>t\<in>set ts. now - t < seconds 60"
    proof
      fix t assume "t \<in> set ts"
      then have "Min (set ts) \<le> t" by simp
      with a show "now - t < seconds 60" by linarith
    qed
  next
    assume a: "\<forall>t\<in>set ts. now - t < seconds 60"
    have "Min (set ts) \<in> set ts" using ne by simp
    with a show "now - Min (set ts) < seconds 60" by blast
  qed
  have cnt: "is_rate_limit_exceeded now (record_all rs ts) =
      (15 \<le> length (filter (\<lambda>r. now - seconds 60 < r) (drop k rs))
            + length (filter (\<lambda>r. now - seconds 60 < r) ts))"
    by (simp add: is_rate_limit_exceeded_def Let_def k max_requests_def time_frame_seconds_def)
  have A: "(\<forall>t\<in>set ts. now - t < seconds 60) \<longrightarrow> is_rate_limit_exceeded now (record_all rs ts)"
  proof
    assume a: "\<forall>t\<in>set ts. now - t < seconds 60"
    then have "filter (\<lambda>r. now - seconds 60 < r) ts = ts"
      by (auto simp: filter_id_conv)
    then show "is_rate_limit_exceeded now (record_all rs ts)" using cnt assms by simp
  qed
  have B: "(\<forall>r\<in>set rs. seconds 60 \<le> now - r) \<longrightarrow>
            is_rate_limit_exceeded now (record_all rs ts) = (now - Min (set ts) < seconds 60)"
  proof
    assume a: "\<forall>r\<in>set rs. seconds 60 \<le> now - r"
    have "\<forall>r\<in>set (drop k rs). seconds 60 \<le> now - r" using a by (meson in_set_dropD)
    then have e: "filter (\<lambda>r. now - seconds 60 < r) (drop k rs) = []"
      by (auto simp: filter_empty_conv)
    have "(15 \<le> length (filter (\<lambda>r. now - seconds 60 < r) ts))
            = (filter (\<lambda>r. now - seconds 60 < r) ts = ts)"
      using assms
      by (metis length_filter_le le_antisym length_filter_less filter_id_conv not_less)
    also have "\<dots> = (\<forall>t\<in>set ts. now - t < seconds 60)" by (auto simp: filter_id_conv)
    finally show "is_rate_limit_exceeded now (record_all rs ts)
                    = (now - Min (set ts) < seconds 60)"
      using cnt e minall by simp
  qed
  show ?thesis using A B by blast
qed

theorem rate_limit_window_witness:
  "length (map seconds [0, 1, 2, 3, 4, 5, 6, 7, 8, 9, 10, 11, 12, 13, 14]) = 15 \<and>
   is_rate_limit_exceeded (seconds 60 - 1)
     (record_all [] (map seconds [0, 1, 2, 3, 4, 5, 6, 7, 8, 9, 10, 11, 12, 13, 14])) \<and>
   \<not> is_rate_limit_exceeded (seconds 60)
     (record_all [] (map seconds [0, 1, 2, 3, 4, 5, 6, 7, 8, 9, 10, 11, 12, 13, 14]))"
proof -
  have h: "length (map seconds [0, 1, 2, 3, 4, 5, 6, 7, 8, 9, 10, 11, 12, 13, 14]) = 15"
    by simp
  show ?thesis
    using h rate_limit_window[OF h, of "seconds 60 - 1" "[]"]
      rate_limit_window[OF h, of "seconds 60" "[]"]
    by (simp add: seconds_def)
qed

section \<open>Properties of the cache\<close>

lemma length_alist_update:
  "length (AList.update k v al) = (if k \<in> fst ` set al then length al else Suc (length al))"
  by (induction al) auto

lemma map_of_add_to_cache:
  "map_of (add_to_cache now uid r tbl) = (map_of tbl)(uid \<mapsto> (now, r))"
  by (simp add: add_to_cache_def update_conv')

lemma check_cache_hit:
  "map_of tbl k = Some (t, res) \<Longrightarrow> now - t < minutes 30 \<Longrightarrow>
   check_cache now k tbl = (res, tbl)"
  by (simp add: check_cache_def)

lemma check_cache_miss:
  assumes "\<forall>t res. map_of tbl k = Some (t, res) \<longrightarrow> minutes 30 \<le> now - t"
  shows "check_cache now k tbl =
           (None, if 512 < length (AList.delete k tbl) then [] else AList.delete k tbl)"
proof (cases "map_of tbl k")
  case None
  then have "k \<notin> fst ` set tbl" by (simp add: map_of_eq_None_iff)
  then have "AList.delete k tbl = tbl" by (simp add: delete_id)
  then show ?thesis using None by (simp add: check_cache_def)
next
  case (Some p)
  obtain t res where p: "p = (t, res)" by (cases p)
  with Some assms have "\<not> now - t < minutes 30" by auto
  then show ?thesis using Some p by (simp add: check_cache_def Let_def)
qed

text \<open>A read that gave \<open>None\<close> gives \<open>None\<close> again on the table it left, at any time.\<close>

lemma check_cache_again:
  "fst (check_cache now uid tbl) = None \<Longrightarrow>
   fst (check_cache now' uid (snd (check_cache now uid tbl))) = None"
  by (auto simp: check_cache_def Let_def delete_conv' split: option.splits if_splits)

subsection \<open>A table of 513 entries\<close>

lemma sample_id_inj: "sample_id m = sample_id n \<Longrightarrow> m = n"
  unfolding sample_id_def by (metis length_replicate same_append_eq)

lemma fill_cache_Suc:
  "fill_cache (Suc n) = add_to_cache 0 (sample_id n) (Some sample_record) (fill_cache n)"
  by (simp add: fill_cache_def)

lemma map_of_fill_cache:
  "map_of (fill_cache n) (sample_id k) = (if k < n then Some (0, Some sample_record) else None)"
proof (induction n)
  case 0
  show ?case by (simp add: fill_cache_def)
next
  case (Suc n)
  show ?case
    using Suc.IH sample_id_inj[of k n]
    by (auto simp: fill_cache_Suc map_of_add_to_cache less_Suc_eq)
qed

lemma length_fill_cache: "length (fill_cache n) = n"
proof (induction n)
  case 0
  show ?case by (simp add: fill_cache_def)
next
  case (Suc n)
  have "map_of (fill_cache n) (sample_id n) = None" by (simp add: map_of_fill_cache)
  then have "sample_id n \<notin> fst ` set (fill_cache n)" by (simp add: map_of_eq_None_iff)
  then show ?case using Suc.IH by (simp add: fill_cache_Suc add_to_cache_def length_alist_update)
qed

text \<open>
  C5, as the spec words it, fails: \<open>_add_to_cache\<close> never clears the table. After 513
  distinct identifiers have been stored the table holds 513 entries, and a read of the first
  of them returns its record.
\<close>

theorem store_never_clears_counterexample:
  "length (fill_cache 513) = 513 \<and>
   fst (check_cache 0 (sample_id 0) (fill_cache 513)) = Some sample_record"
  by (simp add: length_fill_cache check_cache_def map_of_fill_cache minutes_def seconds_def)

text \<open>
  C5 (amended). Storing a result inserts or overwrites the entry of the identifier with the
  current timestamp and never removes an entry, whatever the size of the table. The size is
  tested by the read instead: a read that finds an entry younger than 30 minutes returns it
  and leaves the table alone; a read that finds no entry, or an older one, deletes that
  entry and then clears the entire table if more than 512 entries remain. Consequently,
  after a 513th distinct entry has been inserted, the stored keys keep hitting until some
  read finds no entry; on the cleared table every read misses.
\<close>

theorem cache_cleared_by_missing_read:
  "map_of (add_to_cache now uid r tbl) = (map_of tbl)(uid \<mapsto> (now, r)) \<and>
   length tbl \<le> length (add_to_cache now uid r tbl) \<and>
   (\<forall>k t res. map_of tbl k = Some (t, res) \<and> now - t < minutes 30 \<longrightarrow>
        check_cache now k tbl = (res, tbl)) \<and>
   (\<forall>k. (\<forall>t res. map_of tbl k = Some (t, res) \<longrightarrow> minutes 30 \<le> now - t) \<longrightarrow>
        check_cache now k tbl =
          (None, if 512 < length (AList.delete k tbl) then [] else AList.delete k tbl)) \<and>
   (\<forall>k. check_cache now k [] = (None, []))"
proof -
  have "length tbl \<le> length (add_to_cache now uid r tbl)"
    by (simp add: add_to_cache_def length_alist_update)
  moreover have "\<forall>k. check_cache now k [] = (None, [])"
    by (simp add: check_cache_def)
  ultimately show ?thesis
    using map_of_add_to_cache check_cache_hit check_cache_miss by blast
qed

theorem cache_cleared_by_missing_read_witness:
  "check_cache 0 (sample_id 0) (fill_cache 513) = (Some sample_record, fill_cache 513) \<and>
   check_cache 0 (sample_id 513) (fill_cache 513) = (None, [])"
proof -
  have absent: "sample_id 513 \<notin> fst ` set (fill_cache 513)"
    using map_of_fill_cache[of 513 513] by (simp add: map_of_eq_None_iff)
  have hit: "map_of (fill_cache 513) (sample_id 0) = Some (0, Some sample_record) \<and>
      (0::int) - 0 < minutes 30"
    by (simp add: map_of_fill_cache minutes_def seconds_def)
  have miss: "\<forall>t res. map_of (fill_cache 513) (sample_id 513) = Some (t, res)
      \<longrightarrow> minutes 30 \<le> 0 - t"
    by (simp add: map_of_fill_cache)
  have "check_cache 0 (sample_id 0) (fill_cache 513) = (Some sample_record, fill_cache 513)"
    using cache_cleared_by_missing_read[of 0 "sample_id 0" None "fill_cache 513"] hit by blast
  moreover have "check_cache 0 (sample_id 513) (fill_cache 513) =
      (None, if 512 < length (AList.delete (sample_id 513) (fill_cache 513)) then []
             else AList.delete (sample_id 513) (fill_cache 513))"
    using cache_cleared_by_missing_read[of 0 "sample_id 0" None "fill_cache 513"] miss by blast
  ultimately show ?thesis using absent by (simp add: delete_id length_fill_cache)
qed

section \<open>Properties of check_user\<close>

subsection \<open>The four ways through one call\<close>

lemma check_user_early:
  "before_request uid w = Inl (r, w') \<Longrightarrow> check_user script uid rc w = (Returned r, w')"
  by (simp add: check_user.simps[of script])

lemma check_user_unanswered:
  "before_request uid w = Inr w1 \<Longrightarrow> check_user [] uid rc w = (Unanswered, w1)"
  by (simp add: check_user.simps[of "[]"])

lemma check_user_return:
  "before_request uid w = Inr w1 \<Longrightarrow> on_response resp uid rc w1 = Inl (r, w') \<Longrightarrow>
   check_user (resp # rest) uid rc w = (r, w')"
  by (simp add: check_user.simps[of "resp # rest"])

lemma check_user_retry:
  "before_request uid w = Inr w1 \<Longrightarrow> on_response resp uid rc w1 = Inr (rc', w2) \<Longrightarrow>
   check_user (resp # rest) uid rc w = check_user rest uid rc' w2"
  by (simp add: check_user.simps[of "resp # rest"])

lemma before_request_no_shortcut:
  "no_shortcut uid w \<Longrightarrow> before_request uid w = Inr (issued uid w)"
  by (auto simp: no_shortcut_def before_request_def issued_def gate_time_def Let_def
           split: option.splits snapshot.splits prod.splits)

lemma no_shortcut_retry:
  "no_shortcut uid w \<Longrightarrow> no_shortcut uid (sleep d (recorded f (issued uid w)))"
  by (cases f) (simp_all add: no_shortcut_def sleep_def issued_def check_cache_again)

lemma transport_failure_retry:
  "transport_failure f \<Longrightarrow>
   on_response f uid rc w =
     (if rc < 3 then Inr (rc + 1, sleep (seconds 1) (recorded f w)) else Inl (Returned None, recorded f w))"
  by (cases f) (auto simp: on_response_def Let_def split: body.splits)

lemma on_response_retry_cases:
  "on_response resp uid rc w = Inr (rc', w2) \<Longrightarrow>
     (unbudgeted resp \<and> rc' = rc) \<or> (\<not> unbudgeted resp \<and> rc < 3 \<and> rc' = rc + 1)"
  by (auto simp: on_response_def unbudgeted_def Let_def
           split: response.splits body.splits if_splits)

subsection \<open>The request log\<close>

lemma before_request_log:
  "before_request uid w = Inl (r, w') \<Longrightarrow> net_log w' = net_log w"
  "before_request uid w = Inr w1 \<Longrightarrow> \<exists>t. net_log w1 = net_log w @ [(t, uid)]"
  by (auto simp: before_request_def save_to_404_file_def Let_def
           split: option.splits snapshot.splits prod.splits if_splits)

lemma on_response_log:
  "on_response resp uid rc w = Inl (r, w') \<Longrightarrow> net_log w' = net_log w"
  "on_response resp uid rc w = Inr (rc', w2) \<Longrightarrow> net_log w2 = net_log w"
  by (auto simp: on_response_def save_to_404_file_def sleep_def Let_def
           split: response.splits body.splits if_splits)

text \<open>A lookup only ever adds requests for its own identifier to the log.\<close>

lemma check_user_log:
  "\<exists>more. net_log (snd (check_user script uid rc w)) = net_log w @ more
          \<and> (\<forall>e\<in>set more. snd e = uid)"
proof (induction script arbitrary: rc w)
  case Nil
  show ?case
  proof (cases "before_request uid w")
    case (Inl p)
    obtain r w' where p: "p = (r, w')" by (cases p)
    show ?thesis
      using before_request_log(1)[of uid w r w'] check_user_early[of uid w r w'] Inl p
      by simp
  next
    case (Inr w1)
    then show ?thesis
      using before_request_log(2)[of uid w w1] check_user_unanswered[of uid w w1]
      by auto
  qed
next
  case (Cons resp rest)
  show ?case
  proof (cases "before_request uid w")
    case (Inl p)
    obtain r w' where p: "p = (r, w')" by (cases p)
    show ?thesis
      using before_request_log(1)[of uid w r w'] check_user_early[of uid w r w'] Inl p
      by simp
  next
    case (Inr w1)
    then obtain t where t: "net_log w1 = net_log w @ [(t, uid)]"
      using before_request_log(2) by blast
    note b = Inr
    show ?thesis
    proof (cases "on_response resp uid rc w1")
      case (Inl p)
      obtain r w' where p: "p = (r, w')" by (cases p)
      have "net_log w' = net_log w1" using on_response_log(1) Inl p by blast
      then show ?thesis using check_user_return[OF b, of resp rc r w'] Inl p t by auto
    next
      case (Inr q)
      obtain rc' w2 where q: "q = (rc', w2)" by (cases q)
      have l2: "net_log w2 = net_log w1" using on_response_log(2) Inr q by blast
      obtain more where more: "net_log (snd (check_user rest uid rc' w2)) = net_log w2 @ more"
        "\<forall>e\<in>set more. snd e = uid" using Cons.IH by blast
      have "check_user (resp # rest) uid rc w = check_user rest uid rc' w2"
        using check_user_retry[OF b] Inr q by simp
      then show ?thesis using more l2 t by auto
    qed
  qed
qed

lemma check_user_requests:
  assumes "u \<noteq> uid" and "uid \<notin> snd ` set (net_log w)"
  shows "uid \<notin> snd ` set (net_log (snd (check_user script u rc w)))"
proof -
  obtain more where "net_log (snd (check_user script u rc w)) = net_log w @ more"
    "\<forall>e\<in>set more. snd e = u" using check_user_log by blast
  then show ?thesis using assms by auto
qed

subsection \<open>Counting the attempts\<close>

lemma attempts_early:
  "before_request uid w = Inl (r, w') \<Longrightarrow> attempts script uid rc w = 0"
  using before_request_log(1)[of uid w r w'] check_user_early[of uid w r w' script rc]
  by (simp add: attempts_def)

lemma attempts_unanswered:
  "before_request uid w = Inr w1 \<Longrightarrow> attempts [] uid rc w = 1"
  using before_request_log(2)[of uid w w1] check_user_unanswered[of uid w w1 rc]
  by (auto simp: attempts_def)

lemma attempts_return:
  "before_request uid w = Inr w1 \<Longrightarrow> on_response resp uid rc w1 = Inl (r, w') \<Longrightarrow>
   attempts (resp # rest) uid rc w = 1"
  using before_request_log(2)[of uid w w1] check_user_return[of uid w w1 resp rc r w' rest]
    on_response_log(1)[of resp uid rc w1 r w']
  by (auto simp: attempts_def)

lemma attempts_retry:
  assumes "before_request uid w = Inr w1" and "on_response resp uid rc w1 = Inr (rc', w2)"
  shows "attempts (resp # rest) uid rc w = 1 + attempts rest uid rc' w2"
proof -
  obtain t where t: "net_log w1 = net_log w @ [(t, uid)]"
    using before_request_log(2) assms(1) by blast
  have l2: "net_log w2 = net_log w1" using on_response_log(2) assms(2) by blast
  obtain more where more: "net_log (snd (check_user rest uid rc' w2)) = net_log w2 @ more"
    using check_user_log by blast
  show ?thesis
    using check_user_retry[OF assms, of rest] t l2 more by (simp add: attempts_def)
qed

text \<open>
  Each request but an unanswered last one consumes one answer of the script, so the answers
  a call has received are the first \<open>attempts\<close> ones.
\<close>

lemma attempts_bound:
  "attempts script uid rc w
     \<le> 1 + (3 - rc) + length (filter unbudgeted (take (attempts script uid rc w) script))"
proof (induction script arbitrary: rc w)
  case Nil
  show ?case
  proof (cases "before_request uid w")
    case (Inl p)
    then show ?thesis using attempts_early[of uid w "fst p" "snd p"] by simp
  next
    case (Inr w1)
    then show ?thesis using attempts_unanswered by simp
  qed
next
  case (Cons resp rest)
  show ?case
  proof (cases "before_request uid w")
    case (Inl p)
    then show ?thesis using attempts_early[of uid w "fst p" "snd p"] by simp
  next
    case (Inr w1)
    note b = Inr
    show ?thesis
    proof (cases "on_response resp uid rc w1")
      case (Inl p)
      then show ?thesis using attempts_return[OF b, of resp rc "fst p" "snd p"] by simp
    next
      case (Inr q)
      obtain rc' w2 where q: "on_response resp uid rc w1 = Inr (rc', w2)"
        using Inr by (cases q) simp
      let ?a = "attempts rest uid rc' w2"
      have a: "attempts (resp # rest) uid rc w = Suc ?a"
        using attempts_retry[OF b q] by simp
      have ih: "?a \<le> 1 + (3 - rc') + length (filter unbudgeted (take ?a rest))"
        using Cons.IH .
      have t: "take (Suc ?a) (resp # rest) = resp # take ?a rest" by simp
      from on_response_retry_cases[OF q] show ?thesis
      proof
        assume "unbudgeted resp \<and> rc' = rc"
        then show ?thesis unfolding a t using ih by simp
      next
        assume c: "\<not> unbudgeted resp \<and> rc < 3 \<and> rc' = rc + 1"
        then have "length (filter unbudgeted (resp # take ?a rest))
            = length (filter unbudgeted (take ?a rest))"
          by simp
        moreover have "1 + (3 - rc') = 3 - rc" using c by linarith
        ultimately show ?thesis unfolding a t using ih by linarith
      qed
    qed
  qed
qed

text \<open>
  Transport failures alone: the call at retry count \<open>rc\<close> gives up after \<open>4 - rc\<close> of
  them, having slept a second before each retry.
\<close>

lemma budget_exhausted:
  assumes "no_shortcut uid w" and "rc \<le> 3" and "length fs = 4 - rc"
    and "\<forall>f\<in>set fs. transport_failure f"
  shows "fst (check_user (fs @ rest) uid rc w) = Returned None \<and>
         attempts (fs @ rest) uid rc w = 4 - rc \<and>
         clock w + seconds (int (3 - rc)) \<le> clock (snd (check_user (fs @ rest) uid rc w))"
  using assms
proof (induction fs arbitrary: rc w)
  case Nil
  then show ?case by simp
next
  case (Cons f fs)
  have b: "before_request uid w = Inr (issued uid w)"
    using before_request_no_shortcut Cons.prems(1) by blast
  have f: "transport_failure f" using Cons.prems(4) by simp
  have g: "clock w \<le> clock (recorded f (issued uid w))"
    by (cases f) (simp_all add: issued_def gate_time_def wait_if_needed_later)
  show ?case
  proof (cases "rc < 3")
    case True
    let ?w' = "sleep (seconds 1) (recorded f (issued uid w))"
    have o: "on_response f uid rc (issued uid w) = Inr (rc + 1, ?w')"
      using True transport_failure_retry[OF f] by simp
    have ih: "fst (check_user (fs @ rest) uid (rc + 1) ?w') = Returned None \<and>
        attempts (fs @ rest) uid (rc + 1) ?w' = 4 - (rc + 1) \<and>
        clock ?w' + seconds (int (3 - (rc + 1)))
          \<le> clock (snd (check_user (fs @ rest) uid (rc + 1) ?w'))"
      using Cons.IH[of ?w' "rc + 1"] no_shortcut_retry[OF Cons.prems(1)]
        True Cons.prems(3,4) by simp
    have "clock ?w' = clock (recorded f (issued uid w)) + seconds 1" by (simp add: sleep_def)
    moreover have "seconds (int (3 - rc)) = seconds 1 + seconds (int (3 - (rc + 1)))"
      using True by (simp add: seconds_def algebra_simps of_nat_diff)
    ultimately have "clock w + seconds (int (3 - rc))
        \<le> clock (snd (check_user (fs @ rest) uid (rc + 1) ?w'))"
      using ih g by linarith
    then show ?thesis
      using check_user_retry[OF b o, of "fs @ rest"] attempts_retry[OF b o, of "fs @ rest"] ih True
      by simp
  next
    case False
    then have rc3: "rc = 3" using Cons.prems(2) by simp
    then have o: "on_response f uid rc (issued uid w) = Inl (Returned None, recorded f (issued uid w))"
      using transport_failure_retry[OF f] by simp
    show ?thesis
      using check_user_return[OF b o, of "fs @ rest"] attempts_return[OF b o, of "fs @ rest"] rc3 g
      by (simp add: seconds_def)
  qed
qed

lemma malformed_body_returns:
  assumes "no_shortcut uid w"
  shows "check_user (Response 200 BodyDecodeError # rest) uid rc w =
           (Returned None, (issued uid w)\<lparr>requests := request_made (gate_time w) (requests w)\<rparr>)"
proof -
  have b: "before_request uid w = Inr (issued uid w)"
    using before_request_no_shortcut assms by blast
  have o: "on_response (Response 200 BodyDecodeError) uid rc (issued uid w) =
      Inl (Returned None, (issued uid w)\<lparr>requests := request_made (gate_time w) (requests w)\<rparr>)"
    by (simp add: on_response_def issued_def)
  show ?thesis using check_user_return[OF b o] .
qed

text \<open>One transport failure: the retry starts exactly one second later.\<close>

lemma transport_failure_step:
  assumes "no_shortcut uid w" and "transport_failure f"
  shows "check_user (f # rest) uid rc w =
           (if rc < 3
            then check_user rest uid (rc + 1) (sleep (seconds 1) (recorded f (issued uid w)))
            else (Returned None, recorded f (issued uid w)))"
proof -
  have b: "before_request uid w = Inr (issued uid w)"
    using before_request_no_shortcut assms(1) by blast
  show ?thesis
  proof (cases "rc < 3")
    case True
    then have o: "on_response f uid rc (issued uid w)
        = Inr (rc + 1, sleep (seconds 1) (recorded f (issued uid w)))"
      using transport_failure_retry[OF assms(2)] by simp
    show ?thesis using check_user_retry[OF b o, of rest] True by simp
  next
    case False
    then have o: "on_response f uid rc (issued uid w)
        = Inl (Returned None, recorded f (issued uid w))"
      using transport_failure_retry[OF assms(2)] by simp
    show ?thesis using check_user_return[OF b o, of rest] False by simp
  qed
qed

text \<open>With fewer than 15 entries in the limiter the gate lets the lookup through at once.\<close>

lemma quiet_gate: "length reqs < 15 \<Longrightarrow> wait_if_needed now reqs = now"
proof -
  assume a: "length reqs < 15"
  have "length (filter (\<lambda>req. req > now - seconds time_frame_seconds) reqs) \<le> length reqs"
    by (rule length_filter_le)
  then have "\<not> 15 \<le> length (filter (\<lambda>req. req > now - seconds time_frame_seconds) reqs)"
    using a by linarith
  then have "\<not> is_rate_limit_exceeded now reqs"
    by (simp add: is_rate_limit_exceeded_def Let_def max_requests_def)
  then show ?thesis by (simp add: wait_if_needed.simps[of now reqs])
qed

lemma length_request_made: "length (request_made t rs) \<le> length rs + 1"
  by (simp add: request_made_def Let_def)

lemma recorded_requests:
  "length (requests (recorded f w)) \<le> length (requests w) + 1"
  "clock (recorded f w) = clock w"
  using length_request_made[of "clock w" "requests w"] by (cases f; simp)+

lemma budget_exhausted_clock:
  assumes "no_shortcut uid w" and "rc \<le> 3" and "length fs = 4 - rc"
    and "\<forall>f\<in>set fs. transport_failure f"
    and "length (requests w) + length fs \<le> 15"
  shows "clock (snd (check_user (fs @ rest) uid rc w)) = clock w + seconds (int (3 - rc))"
  using assms
proof (induction fs arbitrary: rc w)
  case Nil
  then show ?case by simp
next
  case (Cons f fs)
  have f: "transport_failure f" using Cons.prems(4) by simp
  have "length (requests w) < 15" using Cons.prems(5) by simp
  then have gt: "gate_time w = clock w" by (simp add: gate_time_def quiet_gate)
  have ci: "clock (recorded f (issued uid w)) = clock w"
    using gt by (simp add: recorded_requests(2) issued_def)
  have ri: "length (requests (recorded f (issued uid w))) \<le> length (requests w) + 1"
    using recorded_requests(1)[of f "issued uid w"] by (simp add: issued_def)
  note step = transport_failure_step[OF Cons.prems(1) f, of "fs @ rest" rc]
  show ?case
  proof (cases "rc < 3")
    case True
    let ?w' = "sleep (seconds 1) (recorded f (issued uid w))"
    have r': "length (requests ?w') + length fs \<le> 15"
      using ri Cons.prems(5) by (simp add: sleep_def)
    have ih: "clock (snd (check_user (fs @ rest) uid (rc + 1) ?w'))
        = clock ?w' + seconds (int (3 - (rc + 1)))"
      using Cons.IH[of ?w' "rc + 1"] no_shortcut_retry[OF Cons.prems(1)]
        True Cons.prems(3,4) r' by simp
    have "clock ?w' = clock w + seconds 1" using ci by (simp add: sleep_def)
    moreover have "seconds (int (3 - rc)) = seconds 1 + seconds (int (3 - (rc + 1)))"
      using True by (simp add: seconds_def algebra_simps of_nat_diff)
    ultimately show ?thesis using step ih True by simp
  next
    case False
    then have "rc = 3" using Cons.prems(2) by simp
    then show ?thesis using step ci by (simp add: seconds_def)
  qed
qed

text \<open>
  A 200 body that decodes to something else than a dictionary: the \<open>AttributeError\<close> of
  \<open>data.get\<close> leaves \<open>check_user\<close>, after \<open>request_made\<close> has run.
\<close>

lemma non_dict_body_raises:
  assumes "no_shortcut uid w"
  shows "check_user (Response 200 BodyNotDict # rest) uid rc w =
           (Raised AttributeError,
            (issued uid w)\<lparr>requests := request_made (gate_time w) (requests w)\<rparr>)"
proof -
  have b: "before_request uid w = Inr (issued uid w)"
    using before_request_no_shortcut assms by blast
  have o: "on_response (Response 200 BodyNotDict) uid rc (issued uid w) =
      Inl (Raised AttributeError,
           (issued uid w)\<lparr>requests := request_made (gate_time w) (requests w)\<rparr>)"
    by (simp add: on_response_def issued_def)
  show ?thesis using check_user_return[OF b o] .
qed

subsection \<open>The time to live of a cache entry\<close>

text \<open>
  C6. Writing a result for an identifier at time \<open>T\<close> leaves an entry with that
  timestamp. As long as the table holds it, every cache read strictly before \<open>T\<close> plus
  30 minutes returns the stored result and keeps the entry; a read at or after \<open>T\<close> plus
  30 minutes returns \<open>None\<close> and the entry is gone. When the entry holds a record and no
  snapshot file exists, \<open>check_user\<close> returns that record before the 30 minutes are
  over, without touching the network or any other state.
\<close>

theorem cache_ttl:
  "map_of (add_to_cache T uid r tbl0) uid = Some (T, r) \<and>
   (map_of tbl uid = Some (T, r) \<longrightarrow>
      (now < T + minutes 30 \<longrightarrow> check_cache now uid tbl = (r, tbl)) \<and>
      (T + minutes 30 \<le> now \<longrightarrow>
         fst (check_cache now uid tbl) = None \<and>
         map_of (snd (check_cache now uid tbl)) uid = None) \<and>
      (\<forall>w data script rc.
         snapshots w uid = None \<and> cache w = tbl \<and> r = Some data \<and>
         clock w < T + minutes 30 \<longrightarrow>
         check_user script uid rc w = (Returned (Some data), w)))"
proof -
  have 0: "map_of (add_to_cache T uid r tbl0) uid = Some (T, r)"
    by (simp add: map_of_add_to_cache)
  have 1: "check_cache now uid tbl = (r, tbl)"
    if "map_of tbl uid = Some (T, r)" and "now < T + minutes 30"
    using that by (simp add: check_cache_def)
  have 2: "fst (check_cache now uid tbl) = None \<and>
      map_of (snd (check_cache now uid tbl)) uid = None"
    if "map_of tbl uid = Some (T, r)" and "T + minutes 30 \<le> now"
    using that by (auto simp: check_cache_def Let_def delete_conv')
  have 3: "check_user script uid rc w = (Returned (Some data), w)"
    if "map_of tbl uid = Some (T, r)" and "snapshots w uid = None" and "cache w = tbl"
      and "r = Some data" and "clock w < T + minutes 30" for w :: world and data script rc
  proof -
    have "check_cache (clock w) uid (cache w) = (Some data, cache w)"
      using that(1,3,4,5) by (simp add: check_cache_def)
    then have "before_request uid w = Inl (Some data, w)"
      using that(2) by (simp add: before_request_def)
    then show ?thesis by (rule check_user_early)
  qed
  show ?thesis using 0 1 2 3 by blast
qed

theorem cache_ttl_witness:
  "check_cache (minutes 30 - 1) ''usr_A'' (add_to_cache 0 ''usr_A'' (Some sample_record) [])
     = (Some sample_record, add_to_cache 0 ''usr_A'' (Some sample_record) []) \<and>
   fst (check_cache (minutes 30) ''usr_A'' (add_to_cache 0 ''usr_A'' (Some sample_record) []))
     = None \<and>
   check_user [] ''usr_A'' 0
       (init_world\<lparr>cache := add_to_cache 0 ''usr_A'' (Some sample_record) []\<rparr>)
     = (Returned (Some sample_record),
        init_world\<lparr>cache := add_to_cache 0 ''usr_A'' (Some sample_record) []\<rparr>)"
proof -
  let ?tbl = "add_to_cache 0 ''usr_A'' (Some sample_record) []"
  let ?w = "init_world\<lparr>cache := ?tbl\<rparr>"
  have e: "map_of ?tbl ''usr_A'' = Some (0, Some sample_record)"
    by (rule cache_ttl[of 0 "''usr_A''" "Some sample_record" "[]", THEN conjunct1])
  have h: "snapshots ?w ''usr_A'' = None \<and> cache ?w = ?tbl \<and>
      Some sample_record = Some sample_record \<and> clock ?w < 0 + minutes 30"
    by (simp add: init_world_def minutes_def seconds_def)
  have "check_user [] ''usr_A'' 0 ?w = (Returned (Some sample_record), ?w)"
    using cache_ttl[of 0 "''usr_A''" "Some sample_record" "[]" ?tbl 0] e h by blast
  moreover have "check_cache (minutes 30 - 1) ''usr_A'' ?tbl = (Some sample_record, ?tbl)"
    using cache_ttl[of 0 "''usr_A''" "Some sample_record" "[]" ?tbl "minutes 30 - 1"] e
    by simp
  moreover have "fst (check_cache (minutes 30) ''usr_A'' ?tbl) = None"
    using cache_ttl[of 0 "''usr_A''" "Some sample_record" "[]" ?tbl "minutes 30"] e
    by simp
  ultimately show ?thesis by simp
qed

subsection \<open>A 200 response with a negative flag\<close>

text \<open>
  C2, as the spec words it, fails: after a 200 response whose \<open>isYoinker\<close> is false the
  lookup returns \<open>None\<close>, and the ledger file, absent before, is still absent.
\<close>

theorem negative_200_not_ledgered_counterexample:
  "fst (check_user [Response 200 (BodyJson [(''isYoinker'', JBool False)])] ''usr_B'' 0 init_world)
     = Returned None \<and>
   ledger init_world = Missing \<and>
   ledger (snd (check_user [Response 200 (BodyJson [(''isYoinker'', JBool False)])] ''usr_B'' 0
                  init_world)) = Missing"
  by (simp add: check_user.simps before_request_def on_response_def init_world_def
      check_cache_def wait_if_needed.simps is_rate_limit_exceeded_def max_requests_def
      is_yoinker_def dict_get_def Let_def)

text \<open>
  C2 (amended). For every identifier whose lookup reaches the network and is answered by
  HTTP 200 with a negative flag, the lookup returns \<open>None\<close> (NotFound) and the
  identifier is stored in the in-memory cache with the value \<open>None\<close> and the time of the
  request; the ledger file is left as it was.
\<close>

theorem negative_200_cached_only:
  assumes "no_shortcut uid w" and "\<not> is_yoinker data"
  shows "fst (check_user (Response 200 (BodyJson data) # rest) uid rc w) = Returned None \<and>
         ledger (snd (check_user (Response 200 (BodyJson data) # rest) uid rc w)) = ledger w \<and>
         map_of (cache (snd (check_user (Response 200 (BodyJson data) # rest) uid rc w))) uid
           = Some (gate_time w, None)"
proof -
  have b: "before_request uid w = Inr (issued uid w)"
    using before_request_no_shortcut assms(1) by blast
  let ?w1 = "(issued uid w)\<lparr>requests := request_made (gate_time w) (requests w)\<rparr>"
  have o: "on_response (Response 200 (BodyJson data)) uid rc (issued uid w) =
      Inl (Returned None, ?w1\<lparr>cache := add_to_cache (gate_time w) uid None (cache ?w1)\<rparr>)"
    using assms(2) by (simp add: on_response_def issued_def)
  show ?thesis unfolding check_user_return[OF b o]
    by (simp add: issued_def add_to_cache_def update_conv')
qed

theorem negative_200_cached_only_witness:
  "no_shortcut ''usr_B'' init_world \<and> \<not> is_yoinker [(''isYoinker'', JBool False)] \<and>
   fst (check_user [Response 200 (BodyJson [(''isYoinker'', JBool False)])] ''usr_B'' 0 init_world)
     = Returned None \<and>
   map_of (cache (snd (check_user [Response 200 (BodyJson [(''isYoinker'', JBool False)])]
                         ''usr_B'' 0 init_world))) ''usr_B''
     = Some (gate_time init_world, None)"
proof -
  have h1: "no_shortcut ''usr_B'' init_world"
    by (simp add: no_shortcut_def init_world_def check_cache_def)
  have h2: "\<not> is_yoinker [(''isYoinker'', JBool False)]"
    by (simp add: is_yoinker_def dict_get_def)
  show ?thesis
    using h1 h2 negative_200_cached_only[OF h1 h2, of "[]" 0] by blast
qed

subsection \<open>The retry budget\<close>

text \<open>
  C3, as the spec words it, fails twice. Answered five times with status 503 and then with
  404, one lookup issues six requests, none of them answered with 429. And a 200 response
  on whose body \<open>response.json()\<close> raises \<open>JSONDecodeError\<close> is not retried: the lookup
  returns \<open>None\<close> after that one request, the clock still where it was.
\<close>

theorem unbounded_retry_counterexample:
  "length (net_log (snd (check_user
      [Response 503 (BodyJson []), Response 503 (BodyJson []),
       Response 503 (BodyJson []), Response 503 (BodyJson []),
       Response 503 (BodyJson []), Response 404 (BodyJson [])]
      ''usr_C'' 0 init_world))) = 6 \<and>
   check_user [Response 200 BodyDecodeError, Response 404 (BodyJson [])] ''usr_C'' 0 init_world =
     (Returned None, init_world\<lparr>requests := [0], net_log := [(0, ''usr_C'')]\<rparr>)"
  by (simp add: check_user.simps before_request_def on_response_def init_world_def
      check_cache_def wait_if_needed.simps is_rate_limit_exceeded_def max_requests_def
      Let_def sleep_def seconds_def request_made_def time_frame_seconds_def save_to_404_file_def)

text \<open>
  C3 (amended). For every identifier, a transport failure consumes one of at most 3 retry
  attempts, and the retry starts after a sleep of exactly 1 second. A transport failure is
  a timeout or a connection error, raised by the request or while the body of a 200
  response is read; the \<open>ContentTypeError\<close> of a body that is not served as JSON is
  such a connection error. So:
  \<^item> the number of requests of one lookup, not counting those answered with a status
    other than 200 and 404, is at most 4;
  \<^item> after a transport failure at a retry count below 3 the lookup goes on, one second
    later and with the count raised by one, as a lookup of its own; at retry count 3 or
    more it returns \<open>None\<close> at once;
  \<^item> a lookup that reaches the network and fails in transport until the budget is
    exhausted returns \<open>None\<close> (Unresolved) after exactly the remaining attempts, no
    earlier than one second per retry after it began, and exactly then when the limiter
    holds so few entries (at most 11) that the rate gate never makes it wait;
  \<^item> a 200 response on whose body \<open>response.json()\<close> raises \<open>JSONDecodeError\<close> is
    not retried: the lookup returns \<open>None\<close> at once, with no sleep.

  Nothing is claimed for a 200 body that decodes to something else than a dictionary. The
  statement is about one call of \<open>check_user\<close> at any retry count \<open>rc\<close>; the
  orchestrator calls it at retry count 0.
\<close>

theorem retry_budget:
  "attempts script uid rc w
     \<le> 1 + (3 - rc) + length (filter unbudgeted (take (attempts script uid rc w) script)) \<and>
   (no_shortcut uid w \<and> transport_failure f \<longrightarrow>
      check_user (f # rest) uid rc w =
        (if rc < 3
         then check_user rest uid (rc + 1) (sleep (seconds 1) (recorded f (issued uid w)))
         else (Returned None, recorded f (issued uid w)))) \<and>
   (no_shortcut uid w \<and> rc \<le> 3 \<and> length fs = 4 - rc \<and>
    (\<forall>x\<in>set fs. transport_failure x) \<longrightarrow>
      fst (check_user (fs @ rest) uid rc w) = Returned None \<and>
      attempts (fs @ rest) uid rc w = 4 - rc \<and>
      clock w + seconds (int (3 - rc)) \<le> clock (snd (check_user (fs @ rest) uid rc w)) \<and>
      (length (requests w) \<le> 11 \<longrightarrow>
         clock (snd (check_user (fs @ rest) uid rc w)) = clock w + seconds (int (3 - rc)))) \<and>
   (no_shortcut uid w \<longrightarrow>
      check_user (Response 200 BodyDecodeError # rest) uid rc w =
        (Returned None, (issued uid w)\<lparr>requests := request_made (gate_time w) (requests w)\<rparr>))"
proof -
  have 2: "check_user (f # rest) uid rc w =
        (if rc < 3
         then check_user rest uid (rc + 1) (sleep (seconds 1) (recorded f (issued uid w)))
         else (Returned None, recorded f (issued uid w)))"
    if "no_shortcut uid w" and "transport_failure f"
    using that by (rule transport_failure_step)
  have 3: "clock (snd (check_user (fs @ rest) uid rc w)) = clock w + seconds (int (3 - rc))"
    if "no_shortcut uid w" and "rc \<le> 3" and "length fs = 4 - rc"
      and "\<forall>x\<in>set fs. transport_failure x" and "length (requests w) \<le> 11"
  proof -
    have "length (requests w) + length fs \<le> 15" using that(3,5) by simp
    then show ?thesis using budget_exhausted_clock[OF that(1,2,3,4)] by simp
  qed
  show ?thesis
    using attempts_bound budget_exhausted malformed_body_returns 2 3 by blast
qed

theorem retry_budget_witness:
  "no_shortcut ''usr_C'' init_world \<and>
   fst (check_user [TimeoutError, ClientError, Response 200 BodyClientError, TimeoutError]
          ''usr_C'' 0 init_world) = Returned None \<and>
   attempts [TimeoutError, ClientError, Response 200 BodyClientError, TimeoutError]
          ''usr_C'' 0 init_world = 4 \<and>
   clock (snd (check_user [TimeoutError, ClientError, Response 200 BodyClientError, TimeoutError]
          ''usr_C'' 0 init_world)) = seconds 3 \<and>
   check_user [TimeoutError] ''usr_C'' 0 init_world =
     check_user [] ''usr_C'' 1 (sleep (seconds 1) (issued ''usr_C'' init_world)) \<and>
   fst (check_user [Response 200 BodyDecodeError] ''usr_C'' 0 init_world) = Returned None"
proof -
  let ?fs = "[TimeoutError, ClientError, Response 200 BodyClientError, TimeoutError]"
  have h: "no_shortcut ''usr_C'' init_world"
    by (simp add: no_shortcut_def init_world_def check_cache_def)
  have p: "no_shortcut ''usr_C'' init_world \<and> (0::nat) \<le> 3 \<and> length ?fs = 4 - 0 \<and>
      (\<forall>x\<in>set ?fs. transport_failure x)"
    using h by simp
  have q: "length (requests init_world) \<le> 11" by (simp add: init_world_def)
  have t: "no_shortcut ''usr_C'' init_world \<and> transport_failure TimeoutError"
    using h by simp
  have a: "fst (check_user (?fs @ []) ''usr_C'' 0 init_world) = Returned None \<and>
        attempts (?fs @ []) ''usr_C'' 0 init_world = 4 - 0 \<and>
        clock (snd (check_user (?fs @ []) ''usr_C'' 0 init_world))
          = clock init_world + seconds (int (3 - 0))"
    using retry_budget[of "[]" "''usr_C''" 0 init_world TimeoutError "[]" ?fs] p q by blast
  have b: "check_user [TimeoutError] ''usr_C'' 0 init_world =
      (if (0::nat) < 3
       then check_user [] ''usr_C'' (0 + 1)
              (sleep (seconds 1) (recorded TimeoutError (issued ''usr_C'' init_world)))
       else (Returned None, recorded TimeoutError (issued ''usr_C'' init_world)))"
    using retry_budget[of "[]" "''usr_C''" 0 init_world TimeoutError "[]" "[]"] t by blast
  have c: "fst (check_user [Response 200 BodyDecodeError] ''usr_C'' 0 init_world) = Returned None"
    using retry_budget[of "[]" "''usr_C''" 0 init_world TimeoutError "[]" "[]"] h by simp
  have i: "clock init_world = 0" by (simp add: init_world_def)
  show ?thesis using h a b c i by simp
qed

subsection \<open>Snapshot files\<close>




subsection \<open>A cached negative result\<close>

text \<open>
  C9, as it is worded, fails for an identifier that also has a snapshot file: the snapshot
  is consulted first, and when it decodes the lookup returns there, with no request, whatever
  the cache holds.
\<close>

theorem cached_none_behind_snapshot_counterexample:
  "map_of (cache (init_world\<lparr>cache := [(''usr_B'', (0, None))],
        snapshots := [''usr_B'' \<mapsto> SnapDict [(''isYoinker'', JBool False)]]\<rparr>)) ''usr_B''
     = Some (0, None) \<and>
   fst (check_user [Response 404 (BodyJson [])] ''usr_B'' 0
     (init_world\<lparr>cache := [(''usr_B'', (0, None))],
        snapshots := [''usr_B'' \<mapsto> SnapDict [(''isYoinker'', JBool False)]]\<rparr>)) = Returned None \<and>
   net_log (snd (check_user [Response 404 (BodyJson [])] ''usr_B'' 0
     (init_world\<lparr>cache := [(''usr_B'', (0, None))],
        snapshots := [''usr_B'' \<mapsto> SnapDict [(''isYoinker'', JBool False)]]\<rparr>))) = []"
  by (simp add: check_user.simps before_request_def init_world_def is_yoinker_def dict_get_def
      load_404_ids_def save_to_404_file_def)

text \<open>
  C9 (amended). For every identifier without a decodable snapshot file whose cache entry
  holds \<open>None\<close> and is younger than 30 minutes, the cache read returns \<open>None\<close>, which
  \<open>check_user\<close> takes for a miss: the lookup passes the rate gate and issues a fresh
  request for the identifier, at a time at which the limit is not exceeded.
\<close>

theorem cached_none_goes_to_network:
  assumes "\<forall>d. snapshots w uid \<noteq> Some (SnapDict d)"
    and "map_of (cache w) uid = Some (T, None)" and "clock w - T < minutes 30"
  shows "check_cache (clock w) uid (cache w) = (None, cache w) \<and>
         \<not> is_rate_limit_exceeded (gate_time w) (requests w) \<and>
         (\<exists>more. net_log (snd (check_user script uid rc w))
                   = net_log w @ (gate_time w, uid) # more)"
proof -
  have c: "check_cache (clock w) uid (cache w) = (None, cache w)"
    using assms(2,3) by (simp add: check_cache_def)
  have "no_shortcut uid w"
    using assms(1) c by (auto simp: no_shortcut_def split: option.splits snapshot.splits)
  then have b: "before_request uid w = Inr (issued uid w)"
    by (rule before_request_no_shortcut)
  have g: "\<not> is_rate_limit_exceeded (gate_time w) (requests w)"
    by (simp add: gate_time_def wait_if_needed_not_exceeded)
  have "\<exists>more. net_log (snd (check_user script uid rc w)) = net_log (issued uid w) @ more"
  proof (cases script)
    case Nil
    then show ?thesis using check_user_unanswered[OF b] by simp
  next
    case (Cons resp rest)
    show ?thesis
    proof (cases "on_response resp uid rc (issued uid w)")
      case (Inl p)
      obtain r w' where p: "on_response resp uid rc (issued uid w) = Inl (r, w')"
        using Inl by (cases p) simp
      show ?thesis
        using check_user_return[OF b p, of rest] on_response_log(1)[OF p] Cons by simp
    next
      case (Inr q)
      obtain rc' w2 where q: "on_response resp uid rc (issued uid w) = Inr (rc', w2)"
        using Inr by (cases q) simp
      obtain more where "net_log (snd (check_user rest uid rc' w2)) = net_log w2 @ more"
        using check_user_log by blast
      then show ?thesis
        using check_user_retry[OF b q, of rest] on_response_log(2)[OF q] Cons by simp
    qed
  qed
  then show ?thesis using c g by (auto simp: issued_def)
qed

theorem cached_none_goes_to_network_witness:
  "\<exists>more. net_log (snd (check_user [Response 404 (BodyJson [])] ''usr_B'' 0
        (init_world\<lparr>clock := seconds 10, cache := [(''usr_B'', (0, None))]\<rparr>)))
      = (seconds 10, ''usr_B'') # more"
proof -
  let ?w = "init_world\<lparr>clock := seconds 10, cache := [(''usr_B'', (0, None))]\<rparr>"
  have h1: "\<forall>d. snapshots ?w ''usr_B'' \<noteq> Some (SnapDict d)" by (simp add: init_world_def)
  have h2: "map_of (cache ?w) ''usr_B'' = Some (0, None)" by simp
  have h3: "clock ?w - 0 < minutes 30" by (simp add: minutes_def seconds_def)
  have g: "gate_time ?w = seconds 10"
    by (simp add: gate_time_def init_world_def wait_if_needed.simps[of "seconds 10" "[]"]
        is_rate_limit_exceeded_def max_requests_def)
  have nl: "net_log ?w = []" by (simp add: init_world_def)
  obtain more where "net_log (snd (check_user [Response 404 (BodyJson [])] ''usr_B'' 0 ?w))
      = net_log ?w @ (gate_time ?w, ''usr_B'') # more"
    using cached_none_goes_to_network[OF h1 h2 h3, of "[Response 404 (BodyJson [])]" 0]
    by blast
  then have "net_log (snd (check_user [Response 404 (BodyJson [])] ''usr_B'' 0 ?w))
      = (seconds 10, ''usr_B'') # more"
    unfolding g nl by simp
  then show ?thesis by blast
qed

section \<open>Properties of process_user_ids\<close>

subsection \<open>The loop over the batches\<close>

lemma upt_Suc_shift: "[0..<Suc m] = 0 # map Suc [0..<m]"
  by (simp add: upt_conv_Cons map_Suc_upt del: upt_Suc)

lemma range_up_closed:
  "0 < bs \<Longrightarrow> range_up i n bs =
     (if i < n then map (\<lambda>k. i + int k * bs) [0..<nat ((n - i - 1) div bs + 1)] else [])"
proof (induction i n bs rule: range_up.induct)
  case (1 i n bs)
  show ?case
  proof (cases "i < n")
    case False
    then show ?thesis by (simp add: range_up.simps[of i n bs])
  next
    case True
    have unf: "range_up i n bs = i # range_up (i + bs) n bs"
      using True 1(2) by (simp add: range_up.simps[of i n bs])
    show ?thesis
    proof (cases "i + bs < n")
      case False
      then have "0 \<le> n - i - 1" "n - i - 1 < bs" using True by auto
      then have "(n - i - 1) div bs = 0" by (simp add: div_pos_pos_trivial)
      moreover have "range_up (i + bs) n bs = []"
        using False by (simp add: range_up.simps[of "i + bs" n bs])
      ultimately show ?thesis using unf True by simp
    next
      case t2: True
      let ?m = "nat ((n - (i + bs) - 1) div bs + 1)"
      have ih: "range_up (i + bs) n bs = map (\<lambda>k. i + bs + int k * bs) [0..<?m]"
        using 1(1) True 1(2) t2 by simp
      have "n - i - 1 = (n - (i + bs) - 1) + bs" by simp
      then have "(n - i - 1) div bs = (n - (i + bs) - 1) div bs + 1"
        using 1(2) by (metis div_add_self2 less_irrefl)
      moreover have "0 \<le> (n - (i + bs) - 1) div bs"
        using t2 1(2) by (simp add: pos_imp_zdiv_nonneg_iff)
      ultimately have m: "nat ((n - i - 1) div bs + 1) = Suc ?m" by simp
      have "map (\<lambda>k. i + int k * bs) [0..<Suc ?m] = i # map (\<lambda>k. i + bs + int k * bs) [0..<?m]"
        unfolding upt_Suc_shift by (simp add: algebra_simps)
      then show ?thesis using unf ih m True by simp
    qed
  qed
qed

lemma py_slice_from:
  assumes "a < length xs"
  shows "py_slice xs (int a) (int a + int b) = take b (drop a xs)"
proof -
  have 1: "slice_bound (int a) (int (length xs)) = int a"
    using assms by (simp add: slice_bound_def)
  have 2: "slice_bound (int a + int b) (int (length xs)) = min (int a + int b) (int (length xs))"
    by (simp add: slice_bound_def)
  have 3: "nat (min (int a + int b) (int (length xs)) - int a) = min b (length xs - a)"
    using assms by linarith
  have "py_slice xs (int a) (int a + int b) = take (min b (length xs - a)) (drop a xs)"
    unfolding py_slice_def Let_def 1 2 3 by simp
  also have "\<dots> = take b (drop a xs)" by (simp add: min_def)
  finally show ?thesis .
qed

lemma py_slice_chunk:
  assumes "k * b < length xs"
  shows "py_slice xs (int k * int b) (int k * int b + int b) = take b (drop (k * b) xs)"
  using py_slice_from[OF assms, of b] by simp

lemma batch_count:
  assumes "0 < b" and "xs \<noteq> []"
  shows "k < (length xs - 1) div b + 1 \<longleftrightarrow> k * b < length xs"
proof -
  have "k < (length xs - 1) div b + 1 \<longleftrightarrow> k \<le> (length xs - 1) div b" by auto
  also have "\<dots> \<longleftrightarrow> k * b \<le> length xs - 1" using assms(1) by (simp add: less_eq_div_iff_mult_less_eq)
  also have "\<dots> \<longleftrightarrow> k * b < length xs" using assms(2) by (cases xs) auto
  finally show ?thesis .
qed


lemma range_up_chunks:
  assumes "0 < b" and "ids \<noteq> []"
  shows "range_up 0 (int (length ids)) (int b) =
           map (\<lambda>k. int k * int b) [0..<(length ids - 1) div b + 1]"
proof -
  have "int (length ids) - 0 - 1 = int (length ids - 1)" using assms(2) by (cases ids) auto
  then have "(int (length ids) - 0 - 1) div int b = int ((length ids - 1) div b)"
    by (simp only: zdiv_int)
  then have m: "nat ((int (length ids) - 0 - 1) div int b + 1) = (length ids - 1) div b + 1"
    by linarith
  have "0 < int b" "0 < int (length ids)" using assms by auto
  then show ?thesis
    using range_up_closed[of "int b" 0 "int (length ids)"] unfolding m by simp
qed

lemma loop_plan:
  assumes "0 < b" and "ids \<noteq> []"
  shows "concat (map (\<lambda>i. batch_events (i div int b + 1) (py_slice ids i (i + int b)))
                     (range_up 0 (int (length ids)) (int b))) =
         plan b ids ((length ids - 1) div b + 1)"
proof -
  have each: "batch_events (int k * int b div int b + 1)
        (py_slice ids (int k * int b) (int k * int b + int b)) =
      batch_events (int k + 1) (take b (drop (k * b) ids))"
    if "k \<in> set [0..<(length ids - 1) div b + 1]" for k
  proof -
    have "k < (length ids - 1) div b + 1" using that by (simp only: set_upt atLeastLessThan_iff)
    then have "k * b < length ids" using batch_count[OF assms, of k] by blast
    then have "py_slice ids (int k * int b) (int k * int b + int b) = take b (drop (k * b) ids)"
      by (rule py_slice_chunk)
    moreover have "int k * int b div int b = int k" using assms(1) by simp
    ultimately show ?thesis by (simp only:)
  qed
  have "map (\<lambda>i. batch_events (i div int b + 1) (py_slice ids i (i + int b)))
                     (range_up 0 (int (length ids)) (int b)) =
        map (\<lambda>k. batch_events (int k * int b div int b + 1)
        (py_slice ids (int k * int b) (int k * int b + int b))) [0..<(length ids - 1) div b + 1]"
    unfolding range_up_chunks[OF assms] map_map comp_def ..
  also have "\<dots> = map (\<lambda>k. batch_events (int k + 1) (take b (drop (k * b) ids)))
       [0..<(length ids - 1) div b + 1]"
    using each by (rule map_cong[OF refl])
  finally show ?thesis by (simp only: plan_def)
qed

lemma select_nonempty:
  "select_user_ids input_file ledger_file = Inr ids \<Longrightarrow> ids \<noteq> []"
  by (auto simp: select_user_ids_def Let_def split: text_file.splits if_splits)

lemma process_plan:
  assumes "0 < c" and "select_user_ids input_file ledger_file = Inr ids"
  shows "process_user_ids input_file ledger_file c =
           Completed (plan (nat (2 * c)) ids ((length ids - 1) div nat (2 * c) + 1))"
proof -
  define b where "b = nat (2 * c)"
  have b: "c * 2 = int b" "0 < b" using assms(1) by (auto simp: b_def)
  have ne: "ids \<noteq> []" using assms(2) by (rule select_nonempty)
  have r: "py_range 0 (int (length ids)) (int b) = Some (range_up 0 (int (length ids)) (int b))"
    using b(2) by (simp add: py_range_def)
  have "process_user_ids input_file ledger_file c =
     Completed (concat (map (\<lambda>i. batch_events (i div int b + 1) (py_slice ids i (i + int b)))
                     (range_up 0 (int (length ids)) (int b))))"
    by (simp add: process_user_ids_def assms(2) Let_def b(1) r)
  then have "process_user_ids input_file ledger_file c =
      Completed (plan b ids ((length ids - 1) div b + 1))"
    by (simp only: loop_plan[OF b(2) ne])
  then show ?thesis by (simp only: b_def)
qed


lemma plan_Suc:
  "plan b ids (Suc m) = plan b ids m @ batch_events (int m + 1) (take b (drop (m * b) ids))"
  by (simp add: plan_def)

lemma created_in_append: "created_in n (xs @ ys) = created_in n xs @ created_in n ys"
  by (simp add: created_in_def)

lemma awaited_in_append: "awaited_in n (xs @ ys) = awaited_in n xs @ awaited_in n ys"
  by (simp add: awaited_in_def)

lemma created_in_batch: "created_in n (batch_events n' xs) = (if n = n' then xs else [])"
  by (induction xs) (auto simp: created_in_def batch_events_def comp_def)

lemma awaited_in_batch: "awaited_in n (batch_events n' xs) = (if n = n' then xs else [])"
  by (induction xs) (auto simp: awaited_in_def batch_events_def comp_def)

lemma created_in_plan:
  "created_in (int k + 1) (plan b ids m) = (if k < m then take b (drop (k * b) ids) else [])"
proof (induction m)
  case 0
  show ?case by (simp add: plan_def created_in_def)
next
  case (Suc m)
  show ?case
    unfolding plan_Suc created_in_append created_in_batch Suc.IH
    by (auto simp: less_Suc_eq)
qed

lemma awaited_in_plan:
  "awaited_in (int k + 1) (plan b ids m) = (if k < m then take b (drop (k * b) ids) else [])"
proof (induction m)
  case 0
  show ?case by (simp add: plan_def awaited_in_def)
next
  case (Suc m)
  show ?case
    unfolding plan_Suc awaited_in_append awaited_in_batch Suc.IH
    by (auto simp: less_Suc_eq)
qed

lemma batch_events_batch: "e \<in> set (batch_events n xs) \<Longrightarrow> event_batch e = n"
  by (auto simp: batch_events_def)

lemma plan_batches: "e \<in> set (plan b ids m) \<Longrightarrow> \<exists>k<m. event_batch e = int k + 1"
proof (induction m)
  case 0
  then show ?case by (simp add: plan_def)
next
  case (Suc m)
  from Suc.prems have "e \<in> set (plan b ids m) \<or> e \<in> set (batch_events (int m + 1) (take b (drop (m * b) ids)))"
    by (simp add: plan_Suc)
  then show ?case
  proof
    assume "e \<in> set (plan b ids m)"
    then obtain k where "k < m" "event_batch e = int k + 1" using Suc.IH by blast
    then show ?thesis using less_Suc_eq by blast
  next
    assume "e \<in> set (batch_events (int m + 1) (take b (drop (m * b) ids)))"
    then have "event_batch e = int m + 1" by (rule batch_events_batch)
    then show ?thesis by blast
  qed
qed

lemma sorted_batch_events: "sorted (map event_batch (batch_events n xs))"
proof -
  have "map event_batch (batch_events n xs) = replicate (length xs) n @ replicate (length xs) n"
    by (simp add: batch_events_def comp_def map_replicate_const)
  then show ?thesis by (simp add: sorted_append)
qed

lemma sorted_plan: "sorted (map event_batch (plan b ids m))"
proof (induction m)
  case 0
  show ?case by (simp add: plan_def)
next
  case (Suc m)
  have "\<forall>x\<in>set (plan b ids m). \<forall>y\<in>set (batch_events (int m + 1) (take b (drop (m * b) ids))).
          event_batch x \<le> event_batch y"
  proof (intro ballI)
    fix x y
    assume "x \<in> set (plan b ids m)" and "y \<in> set (batch_events (int m + 1) (take b (drop (m * b) ids)))"
    then obtain k where "k < m" "event_batch x = int k + 1" and "event_batch y = int m + 1"
      using plan_batches batch_events_batch by blast
    then show "event_batch x \<le> event_batch y" by simp
  qed
  then show ?case
    using Suc.IH sorted_batch_events by (simp add: plan_Suc sorted_append)
qed

lemma sorted_positions:
  assumes "sorted (map f xs)" and "p < length xs" and "q < length xs" and "f (xs ! p) < f (xs ! q)"
  shows "p < q"
proof (rule ccontr)
  assume "\<not> p < q"
  then have "q \<le> p" by simp
  then have "map f xs ! q \<le> map f xs ! p"
    using assms(1,2) by (simp add: sorted_nth_mono del: nth_map)
  then show False using assms(2,3,4) by simp
qed

lemma created_plan:
  "map event_user (filter is_created (plan b ids m)) = take (m * b) ids"
proof (induction m)
  case 0
  show ?case by (simp add: plan_def)
next
  case (Suc m)
  have "map event_user (filter is_created (batch_events n xs)) = xs" for n xs
    by (induction xs) (auto simp: batch_events_def comp_def)
  moreover have "take (m * b + b) ids = take (m * b) ids @ take b (drop (m * b) ids)"
    by (rule take_add)
  moreover have "Suc m * b = m * b + b" by simp
  ultimately show ?case
    using Suc.IH by (simp only: plan_Suc filter_append map_append)
qed

lemma created_plan_all:
  assumes "0 < b" and "ids \<noteq> []"
  shows "map event_user (filter is_created (plan b ids ((length ids - 1) div b + 1))) = ids"
proof -
  let ?m = "(length ids - 1) div b + 1"
  have "\<not> ?m * b < length ids" using batch_count[OF assms, of ?m] by simp
  then show ?thesis by (simp add: created_plan)
qed


subsection \<open>Which identifiers get a lookup task\<close>

lemma set_py_slice: "set (py_slice xs i j) \<subseteq> set xs"
proof -
  have "set (take n (drop m xs)) \<subseteq> set xs" for n m
    using set_take_subset[of n "drop m xs"] set_drop_subset[of m xs] by (rule subset_trans)
  then show ?thesis by (simp add: py_slice_def Let_def)
qed

lemma batch_events_users: "e \<in> set (batch_events n xs) \<Longrightarrow> event_user e \<in> set xs"
  by (auto simp: batch_events_def)

lemma early_no_events:
  "select_user_ids input_file ledger_file = Inl early \<Longrightarrow> run_events early = []"
  by (auto simp: select_user_ids_def Let_def split: text_file.splits if_splits)

lemma run_events_users:
  assumes "e \<in> set (run_events (process_user_ids input_file ledger_file c))"
  shows "\<exists>ids. select_user_ids input_file ledger_file = Inr ids \<and> event_user e \<in> set ids"
proof (cases "select_user_ids input_file ledger_file")
  case (Inl early)
  then have "process_user_ids input_file ledger_file c = early"
    by (simp add: process_user_ids_def)
  then show ?thesis using assms early_no_events[OF Inl] by simp
next
  case (Inr ids)
  show ?thesis
  proof (cases "py_range 0 (int (length ids)) (c * 2)")
    case None
    then have "process_user_ids input_file ledger_file c = RangeValueError"
      by (simp add: process_user_ids_def Inr Let_def)
    then show ?thesis using assms by simp
  next
    case (Some starts)
    have "process_user_ids input_file ledger_file c =
        Completed (concat (map (\<lambda>i. batch_events (i div (c * 2) + 1) (py_slice ids i (i + c * 2))) starts))"
      by (simp add: process_user_ids_def Inr Let_def Some)
    then have "e \<in> set (concat (map (\<lambda>i. batch_events (i div (c * 2) + 1) (py_slice ids i (i + c * 2))) starts))"
      using assms by simp
    then obtain i where "e \<in> set (batch_events (i div (c * 2) + 1) (py_slice ids i (i + c * 2)))"
      by auto
    then have "event_user e \<in> set (py_slice ids i (i + c * 2))"
      by (rule batch_events_users)
    then have "event_user e \<in> set ids" by (rule subsetD[OF set_py_slice])
    then show ?thesis using Inr by simp
  qed
qed

lemma select_excludes_ledger:
  "select_user_ids input_file ledger_file = Inr ids \<Longrightarrow> uid \<in> load_404_ids ledger_file \<Longrightarrow> uid \<notin> set ids"
  by (auto simp: select_user_ids_def Let_def split: text_file.splits if_splits)


text \<open>
  C1. For every identifier in the set loaded from \<open>404.txt\<close> at the start of the run:
  it is not in the list that goes into the batches, no lookup task is created (or awaited)
  for it, whatever the concurrency setting, and no lookup task that the run does create
  ever issues a request for it, whatever the server answers and whatever state the task
  runs in.
\<close>

theorem ledger_ids_never_requested:
  assumes "uid \<in> load_404_ids ledger_file"
  shows "(\<forall>ids. select_user_ids input_file ledger_file = Inr ids \<longrightarrow> uid \<notin> set ids) \<and>
         (\<forall>e\<in>set (run_events (process_user_ids input_file ledger_file c)). event_user e \<noteq> uid) \<and>
         (\<forall>e\<in>set (run_events (process_user_ids input_file ledger_file c)). \<forall>script rc w.
             uid \<notin> snd ` set (net_log w) \<longrightarrow>
             uid \<notin> snd ` set (net_log (snd (check_user script (event_user e) rc w))))"
proof (intro conjI allI impI ballI)
  fix ids assume "select_user_ids input_file ledger_file = Inr ids"
  then show "uid \<notin> set ids" using select_excludes_ledger assms by blast
next
  fix e assume "e \<in> set (run_events (process_user_ids input_file ledger_file c))"
  then obtain ids where "select_user_ids input_file ledger_file = Inr ids" "event_user e \<in> set ids"
    using run_events_users by blast
  then show "event_user e \<noteq> uid" using select_excludes_ledger assms by blast
next
  fix e script rc and w :: world
  assume "e \<in> set (run_events (process_user_ids input_file ledger_file c))"
    and w: "uid \<notin> snd ` set (net_log w)"
  then obtain ids where "select_user_ids input_file ledger_file = Inr ids" "event_user e \<in> set ids"
    using run_events_users by blast
  then have "event_user e \<noteq> uid" using select_excludes_ledger assms by blast
  then show "uid \<notin> snd ` set (net_log (snd (check_user script (event_user e) rc w)))"
    using w by (rule check_user_requests)
qed

subsection \<open>A sample run\<close>

lemma load_sample_ledger: "load_404_ids sample_ledger = {''usr_B''}"
  by (simp add: load_404_ids_def sample_ledger_def stripped_lines_def strip_def is_space_def newline_def)

lemma select_sample:
  "select_user_ids sample_input sample_ledger = Inr [''usr_A'', ''usr_C'', ''usr_D'']"
  by (simp add: select_user_ids_def load_sample_ledger sample_input_def stripped_lines_def
      strip_def is_space_def newline_def)


lemma range_down_sample: "range_down 0 3 (- 2) = []"
  by (simp add: range_down.simps[of 0 3 "- 2"])

subsection \<open>Batches\<close>

text \<open>
  C8, as the spec words it, fails for a concurrency limit that is not positive, which the
  command line accepts: with limit 0 the \<open>range\<close> of the loop raises \<open>ValueError\<close>, and
  with limit -1 the loop body never runs, so the three identifiers that remain after
  filtering are in no batch at all.
\<close>

theorem nonpositive_concurrency_counterexample:
  "select_user_ids sample_input sample_ledger = Inr [''usr_A'', ''usr_C'', ''usr_D''] \<and>
   process_user_ids sample_input sample_ledger 0 = RangeValueError \<and>
   process_user_ids sample_input sample_ledger (- 1) = Completed []"
  by (simp add: process_user_ids_def select_sample py_range_def range_down_sample)

text \<open>
  C8 (amended). For every input list and every concurrency limit \<open>c\<close> of at least 1, the
  identifiers remaining after ledger filtering are partitioned into consecutive batches of
  size \<open>2 * c\<close>, the last one possibly smaller: batch \<open>k + 1\<close> creates the tasks of
  the identifiers at the positions from \<open>k * 2 * c\<close> on, and awaits exactly these. The
  batches are processed in input order, one at a time: the batch numbers never decrease
  along the run, so every await of a batch comes before every task creation of a later
  batch.
\<close>

theorem batches_in_order:
  assumes "0 < c" and "select_user_ids input_file ledger_file = Inr ids"
  shows "\<exists>evs. process_user_ids input_file ledger_file c = Completed evs \<and>
     map event_user (filter is_created evs) = ids \<and>
     (\<forall>k. k * nat (2 * c) < length ids \<longrightarrow>
          created_in (int k + 1) evs = take (nat (2 * c)) (drop (k * nat (2 * c)) ids) \<and>
          awaited_in (int k + 1) evs = take (nat (2 * c)) (drop (k * nat (2 * c)) ids)) \<and>
     (\<forall>e\<in>set evs. \<exists>k. event_batch e = int k + 1 \<and> k * nat (2 * c) < length ids) \<and>
     sorted (map event_batch evs) \<and>
     (\<forall>p q. p < length evs \<and> q < length evs \<and> \<not> is_created (evs ! p) \<and> is_created (evs ! q) \<and>
            event_batch (evs ! p) < event_batch (evs ! q) \<longrightarrow> p < q)"
proof -
  let ?b = "nat (2 * c)"
  let ?m = "(length ids - 1) div ?b + 1"
  let ?evs = "plan ?b ids ?m"
  have b: "0 < ?b" using assms(1) by simp
  have ne: "ids \<noteq> []" using assms(2) by (rule select_nonempty)
  have 0: "process_user_ids input_file ledger_file c = Completed ?evs"
    using process_plan[OF assms] .
  have 1: "map event_user (filter is_created ?evs) = ids"
    using created_plan_all[OF b ne] .
  have 2: "\<forall>k. k * ?b < length ids \<longrightarrow>
          created_in (int k + 1) ?evs = take ?b (drop (k * ?b) ids) \<and>
          awaited_in (int k + 1) ?evs = take ?b (drop (k * ?b) ids)"
    using batch_count[OF b ne] by (simp add: created_in_plan awaited_in_plan)
  have 3: "\<forall>e\<in>set ?evs. \<exists>k. event_batch e = int k + 1 \<and> k * ?b < length ids"
  proof
    fix e assume "e \<in> set ?evs"
    then obtain k where "k < ?m" "event_batch e = int k + 1" using plan_batches by blast
    then show "\<exists>k. event_batch e = int k + 1 \<and> k * ?b < length ids"
      using batch_count[OF b ne, of k] by blast
  qed
  have 4: "sorted (map event_batch ?evs)" by (rule sorted_plan)
  have 5: "\<forall>p q. p < length ?evs \<and> q < length ?evs \<and> \<not> is_created (?evs ! p) \<and> is_created (?evs ! q) \<and>
            event_batch (?evs ! p) < event_batch (?evs ! q) \<longrightarrow> p < q"
    using sorted_positions[OF 4] by blast
  show ?thesis using 0 1 2 3 4 5 by blast
qed

lemma range_sample: "range_up 0 3 2 = [0, 2]" "range_up 0 4 2 = [0, 2]"
  by (simp_all add: range_up.simps[of 0 _ 2] range_up.simps[of 2 _ 2] range_up.simps[of 4 _ 2])

lemma process_sample:
  "process_user_ids sample_input sample_ledger 1 =
     Completed [TaskCreated 1 ''usr_A'', TaskCreated 1 ''usr_C'',
                TaskAwaited 1 ''usr_A'', TaskAwaited 1 ''usr_C'',
                TaskCreated 2 ''usr_D'', TaskAwaited 2 ''usr_D'']"
  by (simp add: process_user_ids_def select_sample py_range_def
        range_sample py_slice_def slice_bound_def batch_events_def)

theorem ledger_ids_never_requested_witness:
  "''usr_B'' \<in> load_404_ids sample_ledger \<and>
   ''usr_B'' \<notin> event_user ` set (run_events (process_user_ids sample_input sample_ledger 1)) \<and>
   ''usr_B'' \<notin> snd ` set (net_log (snd
      (check_user [Response 404 (BodyJson [])] ''usr_A'' 0 init_world)))"
proof -
  have h: "''usr_B'' \<in> load_404_ids sample_ledger"
    by (simp add: load_sample_ledger)
  note t = ledger_ids_never_requested[OF h, of sample_input 1]
  have e: "TaskCreated 1 ''usr_A'' \<in> set (run_events (process_user_ids sample_input sample_ledger 1))"
    by (simp add: process_sample)
  have b: "\<forall>e\<in>set (run_events (process_user_ids sample_input sample_ledger 1)).
      event_user e \<noteq> ''usr_B''"
    using t by (elim conjE)
  have c: "\<forall>e\<in>set (run_events (process_user_ids sample_input sample_ledger 1)).
      \<forall>script rc w. ''usr_B'' \<notin> snd ` set (net_log w) \<longrightarrow>
        ''usr_B'' \<notin> snd ` set (net_log (snd (check_user script (event_user e) rc w)))"
    using t by (elim conjE)
  have 1: "''usr_B'' \<notin> event_user ` set (run_events (process_user_ids sample_input sample_ledger 1))"
    using b by auto
  have n: "''usr_B'' \<notin> snd ` set (net_log init_world)" by (simp add: init_world_def)
  have "''usr_B'' \<notin> snd ` set (net_log (snd
      (check_user [Response 404 (BodyJson [])] (event_user (TaskCreated 1 ''usr_A'')) 0 init_world)))"
    using c[rule_format, OF e n] .
  then show ?thesis using h 1 by simp
qed

theorem batches_in_order_witness:
  "(0::int) < 1 \<and> select_user_ids sample_input sample_ledger = Inr [''usr_A'', ''usr_C'', ''usr_D''] \<and>
   (\<exists>evs. process_user_ids sample_input sample_ledger 1 = Completed evs \<and>
      created_in 1 evs = [''usr_A'', ''usr_C''] \<and> awaited_in 1 evs = [''usr_A'', ''usr_C''] \<and>
      created_in 2 evs = [''usr_D''] \<and> awaited_in 2 evs = [''usr_D''] \<and>
      sorted (map event_batch evs))"
proof -
  have h: "(0::int) < 1" by simp
  obtain evs where evs: "process_user_ids sample_input sample_ledger 1 = Completed evs"
    and k: "\<forall>k. k * nat (2 * 1) < length [''usr_A'', ''usr_C'', ''usr_D''] \<longrightarrow>
          created_in (int k + 1) evs = take (nat (2 * 1)) (drop (k * nat (2 * 1)) [''usr_A'', ''usr_C'', ''usr_D'']) \<and>
          awaited_in (int k + 1) evs = take (nat (2 * 1)) (drop (k * nat (2 * 1)) [''usr_A'', ''usr_C'', ''usr_D''])"
    and s: "sorted (map event_batch evs)"
    using batches_in_order[OF h select_sample] by blast
  have "created_in 1 evs = [''usr_A'', ''usr_C''] \<and> awaited_in 1 evs = [''usr_A'', ''usr_C'']"
    using k[rule_format, of 0] by simp
  moreover have "created_in 2 evs = [''usr_D''] \<and> awaited_in 2 evs = [''usr_D'']"
    using k[rule_format, of 1] by simp
  ultimately show ?thesis using h select_sample evs s by blast
qed

subsection \<open>A ledger that cannot be loaded\<close>

text \<open>
  C10. If \<open>404.txt\<close> does not exist or cannot be read, loading the ledger gives the empty
  set and the run goes on: no identifier is filtered out, the list that goes into the
  batches is the list of the stripped non-blank input lines, and with a concurrency limit
  of at least 1 a lookup task is created for every one of them, in input order.
\<close>

theorem unreadable_ledger_filters_nothing:
  assumes "ledger_file = Missing \<or> ledger_file = Unreadable"
  shows "load_404_ids ledger_file = {} \<and>
         select_user_ids (Text s) ledger_file =
           (if stripped_lines s = [] then Inl NoUserIds else Inr (stripped_lines s)) \<and>
         (0 < c \<longrightarrow>
            map event_user (filter is_created (run_events (process_user_ids (Text s) ledger_file c)))
              = stripped_lines s)"
proof -
  have 1: "load_404_ids ledger_file = {}" using assms by (auto simp: load_404_ids_def)
  have 2: "select_user_ids (Text s) ledger_file =
           (if stripped_lines s = [] then Inl NoUserIds else Inr (stripped_lines s))"
    by (simp add: select_user_ids_def 1 Let_def)
  have 3: "map event_user (filter is_created (run_events (process_user_ids (Text s) ledger_file c)))
              = stripped_lines s" if c: "0 < c"
  proof (cases "stripped_lines s = []")
    case True
    then show ?thesis using 2 by (simp add: process_user_ids_def)
  next
    case False
    then have sel: "select_user_ids (Text s) ledger_file = Inr (stripped_lines s)" using 2 by simp
    have b: "0 < nat (2 * c)" using c by simp
    show ?thesis
      unfolding process_plan[OF c sel] using created_plan_all[OF b False] by simp
  qed
  show ?thesis using 1 2 3 by blast
qed

theorem unreadable_ledger_filters_nothing_witness:
  "load_404_ids Unreadable = {} \<and>
   select_user_ids sample_input Unreadable = Inr [''usr_A'', ''usr_B'', ''usr_C'', ''usr_D''] \<and>
   map event_user (filter is_created (run_events (process_user_ids sample_input Missing 5)))
     = [''usr_A'', ''usr_B'', ''usr_C'', ''usr_D'']"
proof -
  have l: "stripped_lines (''usr_A'' @ newline @ ''usr_B'' @ newline @ ''usr_C'' @ newline @ ''usr_D'' @ newline)
      = [''usr_A'', ''usr_B'', ''usr_C'', ''usr_D'']"
    by (simp add: stripped_lines_def strip_def is_space_def newline_def)
  show ?thesis
    using unreadable_ledger_filters_nothing[of Unreadable
        "''usr_A'' @ newline @ ''usr_B'' @ newline @ ''usr_C'' @ newline @ ''usr_D'' @ newline" 5]
      unreadable_ledger_filters_nothing[of Missing
        "''usr_A'' @ newline @ ''usr_B'' @ newline @ ''usr_C'' @ newline @ ''usr_D'' @ newline" 5]
    unfolding l sample_input_def by simp
qed

end
